theory Spec2Isabelle
  imports Main
begin

section \<open>Strings\<close>

text \<open>
  A JavaScript string is a sequence of UTF-16 code units; \<open>length\<close> counts code units as
  \<open>.length\<close> does. Literals of the source are written \<open>str ''...''\<close>; the bullet glyphs
  outside ASCII are given by their code unit.
\<close>

type_synonym jsstring = "nat list"

definition str :: "string \<Rightarrow> jsstring" where
  "str s = map of_char s"

definition isDigit :: "nat \<Rightarrow> bool" where
  "isDigit c = (48 \<le> c \<and> c \<le> 57)"

definition isUpperAZ :: "nat \<Rightarrow> bool" where
  "isUpperAZ c = (65 \<le> c \<and> c \<le> 90)"

definition isLowerAZ :: "nat \<Rightarrow> bool" where
  "isLowerAZ c = (97 \<le> c \<and> c \<le> 122)"

text \<open>The class \<open>\w\<close>: letters, digits and the underscore.\<close>

definition isWordChar :: "nat \<Rightarrow> bool" where
  "isWordChar c = (isDigit c \<or> isUpperAZ c \<or> isLowerAZ c \<or> c = 95)"

text \<open>The line terminators, which \<open>.\<close> does not match.\<close>

definition isLineTerminator :: "nat \<Rightarrow> bool" where
  "isLineTerminator c = (c = 10 \<or> c = 13 \<or> c = 8232 \<or> c = 8233)"

text \<open>
  The class \<open>\s\<close>, which is also what \<open>trim\<close> strips: TAB, LF, VT, FF, CR, space,
  U+00A0, U+1680, U+2000..U+200A, U+2028, U+2029, U+202F, U+205F, U+3000, U+FEFF.
\<close>

definition isSpace :: "nat \<Rightarrow> bool" where
  "isSpace c = ((9 \<le> c \<and> c \<le> 13) \<or> c = 32 \<or> c = 160 \<or> c = 5760 \<or> (8192 \<le> c \<and> c \<le> 8202)
     \<or> c = 8232 \<or> c = 8233 \<or> c = 8239 \<or> c = 8287 \<or> c = 12288 \<or> c = 65279)"

definition trim :: "jsstring \<Rightarrow> jsstring" where
  "trim s = rev (dropWhile isSpace (rev (dropWhile isSpace s)))"

fun startsWith :: "jsstring \<Rightarrow> jsstring \<Rightarrow> bool" where
  "startsWith s [] = True"
| "startsWith [] (p # ps) = False"
| "startsWith (c # cs) (p # ps) = (if c = p then startsWith cs ps else False)"

definition endsWith :: "jsstring \<Rightarrow> jsstring \<Rightarrow> bool" where
  "endsWith s p = startsWith (rev s) (rev p)"

text \<open>\<open>s.includes(p)\<close>: \<open>p\<close> starts at some position of \<open>s\<close>.\<close>

fun includes_str :: "jsstring \<Rightarrow> jsstring \<Rightarrow> bool" where
  "includes_str [] p = (p = [])"
| "includes_str (c # cs) p = (if startsWith (c # cs) p then True else includes_str cs p)"

text \<open>
  \<open>s.split(/\s+/)\<close>: the pieces between the maximal runs of white space. A leading or a
  trailing run leaves an empty first or last piece, and the empty string gives one empty
  piece. The flag says that the previous code unit was white space.
\<close>

fun splitWs :: "bool \<Rightarrow> jsstring \<Rightarrow> jsstring list" where
  "splitWs b [] = [[]]"
| "splitWs b (c # cs) =
     (if isSpace c then (if b then splitWs True cs else [] # splitWs True cs)
      else (case splitWs False cs of [] \<Rightarrow> [[c]] | w # ws \<Rightarrow> (c # w) # ws))"

text \<open>\<open>parseInt\<close> of a string of decimal digits.\<close>

definition parseInt :: "jsstring \<Rightarrow> nat" where
  "parseInt ds = foldl (\<lambda>n c. 10 * n + (c - 48)) 0 ds"

text \<open>
  \<open>toLowerCase\<close> and \<open>toUpperCase\<close> follow the Unicode case tables of the JavaScript
  runtime, which are not part of the repository: the analyzers take them as a parameter.
  \<open>asciiCase\<close> is the runtime restricted to ASCII, where the tables map \<open>A..Z\<close> to
  \<open>a..z\<close> and back and leave every other code unit alone.
\<close>

record runtime =
  toLowerCase :: "jsstring \<Rightarrow> jsstring"
  toUpperCase :: "jsstring \<Rightarrow> jsstring"

definition upperAscii :: "nat \<Rightarrow> nat" where
  "upperAscii c = (if isLowerAZ c then c - 32 else c)"

definition lowerAscii :: "nat \<Rightarrow> nat" where
  "lowerAscii c = (if isUpperAZ c then c + 32 else c)"

definition asciiCase :: runtime where
  "asciiCase = \<lparr> toLowerCase = map lowerAscii, toUpperCase = map upperAscii \<rparr>"

section \<open>Regular expressions\<close>

text \<open>
  The regular expressions of the source use character classes, \<open>.\<close>, the anchors \<open>^\<close>
  and \<open>$\<close> (no \<open>m\<close> flag: start and end of the input), the word boundary \<open>\b\<close>,
  sequence, alternation, the greedy \<open>*\<close> and \<open>+\<close>, which every pattern of the source
  applies to a single character class, \<open>?\<close>, and the \<open>i\<close> flag. None has the \<open>g\<close>
  or \<open>y\<close> flag, so \<open>test\<close> and \<open>match\<close> keep no state between calls.

  A position is the code unit before the cursor (\<open>None\<close> at the start of the input) and
  the rest of the input. \<open>ends r ci x\<close> lists the positions where a match of \<open>r\<close> that
  starts at \<open>x\<close> can end, in the order in which a backtracking matcher tries them: a
  greedy repetition tries the longest run first, \<open>?\<close> tries its pattern before it tries
  to skip it. \<open>ci\<close> is the \<open>i\<close> flag: a code unit matches a class when one of its case
  variants is in the class. Every pattern of the source with the \<open>i\<close> flag holds ASCII
  letters only, for which the variants are the ASCII ones.
\<close>

datatype rx = Cls "nat \<Rightarrow> bool" | Bol | Eol | WordB | Eps
  | Seq rx rx | Alt rx rx | Star "nat \<Rightarrow> bool" | Opt rx

type_synonym pos = "nat option \<times> jsstring"

definition inClass :: "(nat \<Rightarrow> bool) \<Rightarrow> bool \<Rightarrow> nat \<Rightarrow> bool" where
  "inClass P ci c = (if P c then True else if ci then P (upperAscii c) \<or> P (lowerAscii c) else False)"

text \<open>
  The ends of a run of a class, the longest first; \<open>acc\<close> holds the ends of the shorter
  runs.
\<close>

fun many :: "(nat \<Rightarrow> bool) \<Rightarrow> bool \<Rightarrow> nat option \<Rightarrow> jsstring \<Rightarrow> pos list \<Rightarrow> pos list" where
  "many P ci p [] acc = (p, []) # acc"
| "many P ci p (c # cs) acc =
     (if inClass P ci c then many P ci (Some c) cs ((p, c # cs) # acc) else (p, c # cs) # acc)"

definition wordAt :: "nat option \<Rightarrow> bool" where
  "wordAt p = (case p of None \<Rightarrow> False | Some c \<Rightarrow> isWordChar c)"

definition headOpt :: "jsstring \<Rightarrow> nat option" where
  "headOpt s = (case s of [] \<Rightarrow> None | c # _ \<Rightarrow> Some c)"

primrec ends :: "rx \<Rightarrow> bool \<Rightarrow> pos \<Rightarrow> pos list" where
  "ends (Cls P) ci x = (case snd x of [] \<Rightarrow> []
      | c # cs \<Rightarrow> if inClass P ci c then [(Some c, cs)] else [])"
| "ends Bol ci x = (if fst x = None then [x] else [])"
| "ends Eol ci x = (if snd x = [] then [x] else [])"
| "ends WordB ci x = (if wordAt (fst x) \<noteq> wordAt (headOpt (snd x)) then [x] else [])"
| "ends Eps ci x = [x]"
| "ends (Seq a b) ci x = concat (map (ends b ci) (ends a ci x))"
| "ends (Alt a b) ci x = ends a ci x @ ends b ci x"
| "ends (Star P) ci x = many P ci (fst x) (snd x) []"
| "ends (Opt a) ci x = ends a ci x @ [x]"

text \<open>\<open>search\<close> tries every start position from left to right, as an unanchored match does.\<close>

fun search :: "rx \<Rightarrow> bool \<Rightarrow> nat option \<Rightarrow> jsstring \<Rightarrow> bool" where
  "search r ci p [] = (ends r ci (p, []) \<noteq> [])"
| "search r ci p (c # cs) = (if ends r ci (p, c # cs) \<noteq> [] then True else search r ci (Some c) cs)"

text \<open>A regular expression literal: the pattern and its \<open>i\<close> flag.\<close>

type_synonym regexp = "rx \<times> bool"

definition test :: "regexp \<Rightarrow> jsstring \<Rightarrow> bool" where
  "test re s = search (fst re) (snd re) None s"

text \<open>The text between two positions of one input: what a capture group holds.\<close>

definition between :: "pos \<Rightarrow> pos \<Rightarrow> jsstring" where
  "between x y = take (length (snd x) - length (snd y)) (snd x)"

subsection \<open>Notation for patterns\<close>

definition Lit :: "char \<Rightarrow> rx" where
  "Lit c = Cls (\<lambda>x. x = of_char c)"

definition Word :: "string \<Rightarrow> rx" where
  "Word s = foldr (\<lambda>c r. Seq (Lit c) r) s Eps"

definition Plus :: "(nat \<Rightarrow> bool) \<Rightarrow> rx" where
  "Plus P = Seq (Cls P) (Star P)"

definition Seqs :: "rx list \<Rightarrow> rx" where
  "Seqs rs = foldr Seq rs Eps"

definition Alts :: "rx list \<Rightarrow> rx" where
  "Alts rs = foldr Alt (butlast rs) (last rs)"

definition Words :: "string list \<Rightarrow> rx" where
  "Words ws = Alts (map Word ws)"

text \<open>The class of \<open>.\<close>: every code unit but the line terminators.\<close>

definition notLineTerminator :: "nat \<Rightarrow> bool" where
  "notLineTerminator c = (\<not> isLineTerminator c)"

definition oneOf :: "nat list \<Rightarrow> nat \<Rightarrow> bool" where
  "oneOf cs c = (c \<in> set cs)"

definition Chars :: "nat list \<Rightarrow> rx" where
  "Chars cs = Cls (oneOf cs)"

abbreviation sp :: rx where "sp \<equiv> Cls isSpace"

section \<open>Rule tables\<close>

text \<open>\<open>HEADER_KEYWORDS\<close>: keywords that strongly indicate a section header.\<close>

definition HEADER_KEYWORDS :: "jsstring list" where
  "HEADER_KEYWORDS = map str
    [''Introduction'', ''Conclusion'', ''Conclusions'', ''Summary'', ''Overview'',
     ''Background'', ''Methodology'', ''Results'', ''Discussion'', ''Recommendations'',
     ''Next Steps'', ''Appendix'', ''References'', ''Glossary'', ''Final Summary'',
     ''Development Tools'', ''Development tools'', ''Major Focus Areas'',
     ''Key Findings'', ''Executive Summary'', ''Scope'', ''Objectives'', ''Purpose'',
     ''Requirements'', ''Implementation'', ''Architecture'', ''Configuration'',
     ''Troubleshooting'', ''Best Practices'', ''Limitations'', ''Future Work'',
     ''Acknowledgments'', ''Prerequisites'', ''Dependencies'', ''Setup'', ''Installation'',
     ''Working Model'', ''Initial Project Phase'', ''Project Phase'']"

text \<open>
  \<open>LIST_INTRO_PATTERNS\<close>: patterns that indicate the start of a list. \<open>colonOrSpace\<close>
  is the class \<open>[:\s]\<close>; \<open>introVerb w\<close> is \<open>w s? (are|were|is|was|included)[:\s]\<close>.
\<close>

definition isColonOrSpace :: "nat \<Rightarrow> bool" where
  "isColonOrSpace c = (c = 58 \<or> isSpace c)"

abbreviation colonOrSpace :: rx where "colonOrSpace \<equiv> Cls isColonOrSpace"

definition introVerb :: "string \<Rightarrow> regexp" where
  "introVerb w = (Seqs [Word w, Opt (Lit CHR ''s''), Lit CHR '' '',
     Words [''are'', ''were'', ''is'', ''was'', ''included''], colonOrSpace], True)"

definition LIST_INTRO_PATTERNS :: "regexp list" where
  "LIST_INTRO_PATTERNS =
    [(Seqs [Word ''the following'', colonOrSpace], True),
     (Seqs [Word ''as follows'', colonOrSpace], True),
     (Seqs [Word ''include'', Opt (Chars (str ''sd'')), colonOrSpace], True),
     (Seqs [Word ''such as'', colonOrSpace], True),
     (Seqs [Word ''for example'', colonOrSpace], True),
     (Seqs [Word ''listed below'', colonOrSpace], True),
     (Seqs [Word ''step'', Opt (Lit CHR ''s''), Lit CHR '' '',
            Words [''are'', ''were'', ''is'', ''was''], colonOrSpace], True),
     introVerb ''challenge'',
     introVerb ''characteristic'',
     introVerb ''reason'',
     introVerb ''benefit'',
     introVerb ''feature'',
     introVerb ''requirement'',
     introVerb ''component'',
     (Seqs [Lit CHR '':'', Star isColonOrSpace, Eol], False)]"

text \<open>\<open>CODE_PATTERNS\<close>: patterns that indicate code or technical content, in the source's order.\<close>

definition CODE_PATTERNS :: "regexp list" where
  "CODE_PATTERNS =
    [(Seqs [Bol, Words [''SELECT'', ''FROM'', ''WHERE'', ''INSERT'', ''UPDATE'', ''DELETE'',
                        ''CREATE'', ''ALTER'', ''DROP''], sp], True),
     (Seqs [WordB, Words [''System.debug'', ''Console.log'', ''print('', ''println('']], False),
     (Seqs [WordB, Alts [Seqs [Word ''try'', Star isSpace, Lit CHR ''{''],
                         Seqs [Word ''catch'', Star isSpace, Lit CHR ''(''],
                         Seqs [Word ''finally'', Star isSpace, Lit CHR ''{''],
                         Seqs [Word ''if'', Star isSpace, Lit CHR ''(''],
                         Seqs [Word ''else'', Star isSpace, Lit CHR ''{''],
                         Seqs [Word ''for'', Star isSpace, Lit CHR ''(''],
                         Seqs [Word ''while'', Star isSpace, Lit CHR ''('']]], False),
     (Seqs [WordB, Alts [Seqs [Word ''new'', Plus isSpace, Plus isWordChar, Star isSpace, Lit CHR ''(''],
                         Seqs [Word ''.get'', Plus isWordChar, Star isSpace, Lit CHR ''(''],
                         Seqs [Word ''.set'', Plus isWordChar, Star isSpace, Lit CHR ''('']]], False),
     (Seqs [Bol, Star isSpace, Words [''Id'', ''String'', ''Integer'', ''Boolean'', ''List<'', ''Map<'',
                                 ''Set<'', ''var'', ''let'', ''const''],
            Plus isSpace, Plus isWordChar, Star isSpace, Lit CHR ''=''], False),
     (Seqs [Words [''__c'', ''__r'', ''__mdt'', ''__e''], WordB], False),
     (Seqs [WordB, Words [''Database.'', ''Schema.'', ''Apex'', ''SOQL'', ''SOSL''], WordB], True),
     (Seqs [Bol, Star isSpace, Lit CHR ''}'', Star isSpace, Opt (Words [''catch'', ''finally'', ''else'']),
            Star isSpace, Opt (Lit CHR ''{''), Star isSpace, Eol], False),
     (Seqs [Bol, Star isSpace, Lit CHR ''/'', Lit CHR ''/'', Star notLineTerminator, Eol], False),
     (Seqs [Bol, Star isSpace, Lit CHR ''/'', Lit CHR ''*'', Star notLineTerminator, Lit CHR ''*'', Lit CHR ''/'',
            Star isSpace, Eol], False),
     (Seqs [Bol, Star isSpace, Lit CHR ''*'', sp], False),
     (Seqs [Word ''=>'', Star isSpace, Lit CHR ''{''], False),
     (Seqs [WordB, Word ''function'', Star isSpace, Lit CHR ''(''], False),
     (Seqs [WordB, Word ''class'', Plus isSpace, Plus isWordChar], False),
     (Seqs [WordB, Word ''import'', Plus isSpace], False),
     (Seqs [WordB, Word ''export'', Plus isSpace, Opt (Seqs [Word ''default'', Plus isSpace])], False),
     (Seqs [Bol, Star isSpace, Lit CHR ''@'', Plus isWordChar], False),
     (Alt (Seqs [WordB, Word ''Savepoint'', WordB]) (Seqs [WordB, Word ''rollback'', WordB]), True),
     (Alt (Seqs [WordB, Word ''DmlException'', WordB]) (Seqs [WordB, Word ''Exception'', WordB]), False)]"

text \<open>\<open>BULLET_CONTENT_PATTERNS\<close>: patterns for bullet-like content without a marker.\<close>

definition BULLET_CONTENT_PATTERNS :: "regexp list" where
  "BULLET_CONTENT_PATTERNS =
    [(Seqs [Bol, Cls isUpperAZ, Plus isLowerAZ, Word ''ing'', sp], False),
     (Seqs [Bol, Cls isUpperAZ, Plus isLowerAZ, Word ''ed'', sp], False),
     (Seqs [Bol, Words [''How'', ''What'', ''When'', ''Where'', ''Why'', ''Which''], sp], True),
     (Seqs [Bol, Words [''The'', ''A'', ''An''], Plus isSpace, Plus isWordChar, Plus isSpace,
            Words [''was'', ''were'', ''is'', ''are'', ''has'', ''have''], sp], False),
     (Seqs [Bol, Words [''No'', ''Missing'', ''Incorrect'', ''Invalid'', ''Duplicate''], sp], True),
     (Seqs [Bol, Words [''Enable'', ''Disable'', ''Configure'', ''Set'', ''Get'', ''Create'',
                        ''Delete'', ''Update'', ''Review''], sp], True)]"

text \<open>The patterns written inline in the analyzers, named after what they look for.\<close>

text \<open>\<open>/^\d+\.\d+\.\d+\s+[A-Z]/\<close>, \<open>/^\d+\.\d+\s+[A-Z]/\<close> and \<open>/^\d+\.\s+[A-Z]/\<close>.\<close>

definition re_section3 :: regexp where
  "re_section3 = (Seqs [Bol, Plus isDigit, Lit CHR ''.'', Plus isDigit, Lit CHR ''.'', Plus isDigit,
                        Plus isSpace, Cls isUpperAZ], False)"

definition re_section2 :: regexp where
  "re_section2 = (Seqs [Bol, Plus isDigit, Lit CHR ''.'', Plus isDigit, Plus isSpace,
                        Cls isUpperAZ], False)"

definition re_section1 :: regexp where
  "re_section1 = (Seqs [Bol, Plus isDigit, Lit CHR ''.'', Plus isSpace, Cls isUpperAZ], False)"

text \<open>\<open>/^\d+\.\d+\.\d+\s/\<close>, \<open>/^\d+\.\d+\s/\<close> and \<open>/^\d+\.\s/\<close>.\<close>

definition re_level3 :: regexp where
  "re_level3 = (Seqs [Bol, Plus isDigit, Lit CHR ''.'', Plus isDigit, Lit CHR ''.'', Plus isDigit,
                      sp], False)"

definition re_level2 :: regexp where
  "re_level2 = (Seqs [Bol, Plus isDigit, Lit CHR ''.'', Plus isDigit, sp], False)"

definition re_level1 :: regexp where
  "re_level1 = (Seqs [Bol, Plus isDigit, Lit CHR ''.'', sp], False)"

text \<open>\<open>/^[a-z]\)\s/i\<close> and \<open>/^[ivxIVX]+\.\s/\<close>.\<close>

definition re_letter :: regexp where
  "re_letter = (Seqs [Bol, Cls isLowerAZ, Lit CHR '')'', sp], True)"

definition re_roman :: regexp where
  "re_roman = (Seqs [Bol, Plus (oneOf (str ''ivxIVX'')), Lit CHR ''.'', sp], False)"

text \<open>\<open>/^[A-Z]/\<close> and \<open>/^[\w\s]+:\s*[\w\s]+$/\<close>.\<close>

definition re_capital :: regexp where
  "re_capital = (Seqs [Bol, Cls isUpperAZ], False)"

definition wordOrSpace :: "nat \<Rightarrow> bool" where
  "wordOrSpace c = (isWordChar c \<or> isSpace c)"

definition re_label :: regexp where
  "re_label = (Seqs [Bol, Plus wordOrSpace, Lit CHR '':'', Star isSpace, Plus wordOrSpace, Eol], False)"

text \<open>
  \<open>/[{}\[\]();]/\<close>, \<open>/\b\w+\.\w+\(/\<close>, \<open>/=\s*['"]/\<close> (the code units 39 and 34),
  \<open>/=\s*\d+/\<close>, \<open>/blng__|SBQQ__|npsp__/\<close> and \<open>/^[\w_]+[,;]?$/\<close>.
\<close>

definition re_codeChars :: regexp where
  "re_codeChars = (Chars (str ''{}[]();''), False)"

definition re_methodCall :: regexp where
  "re_methodCall = (Seqs [WordB, Plus isWordChar, Lit CHR ''.'', Plus isWordChar, Lit CHR ''(''], False)"

definition re_stringAssign :: regexp where
  "re_stringAssign = (Seqs [Lit CHR ''='', Star isSpace, Chars [39, 34]], False)"

definition re_numberAssign :: regexp where
  "re_numberAssign = (Seqs [Lit CHR ''='', Star isSpace, Plus isDigit], False)"

definition re_salesforce :: regexp where
  "re_salesforce = (Words [''blng__'', ''SBQQ__'', ''npsp__''], False)"

definition re_fragment :: regexp where
  "re_fragment = (Seqs [Bol, Plus isWordChar, Opt (Chars (str '',;'')), Eol], False)"

text \<open>
  The marker class of the bullet analyzer: the glyph U+2022 (written twice in the source,
  once as itself and once as an escape), the hyphen, the asterisk, U+2023, U+25E6, U+2043
  and U+2219, followed by \<open>\s\<close>; and \<open>/^(The|This|That|These|Those|It)\s/\<close>.
\<close>

definition re_bulletMarker :: regexp where
  "re_bulletMarker = (Seqs [Bol, Chars [8226, 45, 42, 8226, 8227, 9702, 8259, 8729], sp], False)"

definition re_bodyStart :: regexp where
  "re_bodyStart = (Seqs [Bol, Words [''The'', ''This'', ''That'', ''These'', ''Those'', ''It''], sp], False)"

section \<open>Signal analyzers\<close>

subsection \<open>\<open>analyzeHeaderProbability\<close>\<close>

text \<open>
  The keyword loop returns from the analyzer at an exact keyword (90) or a keyword
  followed by a colon (85): \<open>Inl\<close> is the returned score, \<open>Inr\<close> the running score
  after the last keyword.
\<close>

fun keywordLoop :: "runtime \<Rightarrow> jsstring \<Rightarrow> jsstring list \<Rightarrow> int \<Rightarrow> int + int" where
  "keywordLoop rt trimmed [] score = Inr score"
| "keywordLoop rt trimmed (keyword # rest) score =
     (if trimmed = keyword then Inl 90
      else if startsWith trimmed (keyword @ str '':'') then Inl 85
      else keywordLoop rt trimmed rest
             ((if startsWith trimmed (keyword @ str '' '') then score + 20 else score)
              + (if includes_str (toLowerCase rt trimmed) (toLowerCase rt keyword) then 10 else 0)))"

text \<open>
  \<open>capitalizedWords.length >= words.length * 0.7\<close> compares a count with a double. For
  counts below \<open>2^50\<close> the product is within \<open>0.05\<close> of the exact \<open>7/10\<close> of the
  count, so the comparison is the integer one, \<open>10 * capitalized \<ge> 7 * words\<close>.
\<close>

definition titleCase :: "jsstring \<Rightarrow> bool" where
  "titleCase trimmed =
     (let words = splitWs False trimmed;
          capitalizedWords = filter (\<lambda>w. test re_capital w) words
      in length words \<ge> 2 \<and> 10 * length capitalizedWords \<ge> 7 * length words)"

definition isBlank :: "jsstring option \<Rightarrow> bool" where
  "isBlank prevText = (case prevText of None \<Rightarrow> True | Some p \<Rightarrow> trim p = [])"

definition headerTail :: "runtime \<Rightarrow> jsstring \<Rightarrow> jsstring option \<Rightarrow> jsstring option \<Rightarrow> int \<Rightarrow> int" where
  "headerTail rt trimmed prevText nextText score =
     min (score
       + (if titleCase trimmed then 15 else 0)
       + (if \<not> endsWith trimmed (str ''.'') \<and> \<not> endsWith trimmed (str '','') then 10 else 0)
       - (if endsWith trimmed (str ''.'') then 15 else 0)
       + (if isBlank prevText then 10 else 0)
       + (case nextText of None \<Rightarrow> 0
          | Some n \<Rightarrow> if n \<noteq> [] \<and> length n > length trimmed * 2 then 10 else 0)
       + (if test re_label trimmed \<and> length trimmed < 60 then 20 else 0)
       + (if trimmed = toUpperCase rt trimmed \<and> length trimmed > 3 \<and> length trimmed < 50
          then 15 else 0)) 100"

definition analyzeHeaderProbability ::
  "runtime \<Rightarrow> jsstring \<Rightarrow> jsstring option \<Rightarrow> jsstring option \<Rightarrow> int" where
  "analyzeHeaderProbability rt text prevText nextText =
     (let trimmed = trim text;
          score = (if length trimmed < 80 then 15 else 0)
                + (if length trimmed < 50 then 10 else 0)
                - (if length trimmed > 150 then 30 else 0)
      in if test re_section3 trimmed then 95
         else if test re_section2 trimmed then 95
         else if test re_section1 trimmed then 95
         else (case keywordLoop rt trimmed HEADER_KEYWORDS score of
                 Inl r \<Rightarrow> r
               | Inr score \<Rightarrow> headerTail rt trimmed prevText nextText score))"

subsection \<open>\<open>analyzeCodeProbability\<close>\<close>

text \<open>\<open>CODE_PATTERNS.some(p => p.test(c))\<close>: the test of a context line.\<close>

definition codeLike :: "jsstring \<Rightarrow> bool" where
  "codeLike c = list_ex (\<lambda>p. test p c) CODE_PATTERNS"

definition analyzeCodeProbability :: "jsstring \<Rightarrow> jsstring list \<Rightarrow> int" where
  "analyzeCodeProbability text context =
     (let trimmed = trim text;
          codeNeighbors = length (filter codeLike context)
      in min (foldl (\<lambda>score pattern. if test pattern trimmed then score + 30 else score) 0 CODE_PATTERNS
         + (if startsWith text (str ''    '') \<or> startsWith text [9] then 20 else 0)
         + (if test re_codeChars trimmed then 15 else 0)
         + (if test re_methodCall trimmed then 15 else 0)
         + (if test re_stringAssign trimmed then 10 else 0)
         + (if test re_numberAssign trimmed then 10 else 0)
         + (if test re_salesforce trimmed then 25 else 0)
         + (if length trimmed < 30 \<and> test re_fragment trimmed then 15 else 0)
         + (if codeNeighbors \<ge> 2 then 20 else 0)) 100)"

subsection \<open>\<open>analyzeBulletProbability\<close>\<close>

definition analyzeBulletProbability :: "jsstring \<Rightarrow> jsstring option \<Rightarrow> bool \<Rightarrow> int" where
  "analyzeBulletProbability text prevText isAfterListIntro =
     (let trimmed = trim text
      in if test re_bulletMarker trimmed then 95
         else min ((if isAfterListIntro then 40 else 0)
           + (if length trimmed < 100 \<and> length trimmed > 10 then 10 else 0)
           + foldl (\<lambda>score pattern. if test pattern trimmed then score + 15 else score) 0
               BULLET_CONTENT_PATTERNS
           - (if test re_bodyStart trimmed \<and> length trimmed > 80 then 20 else 0)
           + (case prevText of None \<Rightarrow> 0
              | Some p \<Rightarrow> if p \<noteq> [] \<and> length p < 100 \<and> length trimmed < 100 then 10 else 0)
           + (if \<not> endsWith trimmed (str ''.'') \<and> length trimmed > 20 then 5 else 0)) 100)"

subsection \<open>\<open>getHeadingLevel\<close>\<close>

text \<open>The item types of \<open>ContentItem\<close>; \<open>paragraph_item\<close> is the type \<open>paragraph\<close>.\<close>

datatype ItemType = heading1 | heading2 | heading3 | paragraph_item | bullet | numbered
  | code_block | sub_bullet

definition getHeadingLevel :: "jsstring \<Rightarrow> ItemType option" where
  "getHeadingLevel text =
     (let trimmed = trim text
      in if test re_level3 trimmed then Some heading3
         else if test re_level2 trimmed then Some heading2
         else if test re_level1 trimmed then Some heading1
         else if test re_letter trimmed then Some heading3
         else if test re_roman trimmed then Some heading2
         else None)"

section \<open>Content items\<close>

text \<open>
  \<open>ContentItem\<close> as the source declares it: the type and four optional fields, of which
  each rule sets the ones it needs. \<open>item_text\<close> is the field \<open>text\<close>.
\<close>

record ContentItem =
  type :: ItemType
  item_text :: "jsstring option"
  lines :: "jsstring list option"
  number :: "nat option"
  confidence :: "int option"

definition textItem :: "ItemType \<Rightarrow> jsstring \<Rightarrow> int \<Rightarrow> ContentItem" where
  "textItem ty t c =
     \<lparr> type = ty, item_text = Some t, lines = None, number = None, confidence = Some c \<rparr>"

definition numberedItem :: "jsstring \<Rightarrow> nat \<Rightarrow> ContentItem" where
  "numberedItem t n =
     \<lparr> type = numbered, item_text = Some t, lines = None, number = Some n, confidence = None \<rparr>"

definition codeItem :: "jsstring list \<Rightarrow> int \<Rightarrow> ContentItem" where
  "codeItem ls c =
     \<lparr> type = code_block, item_text = None, lines = Some ls, number = None, confidence = Some c \<rparr>"

section \<open>The matches with capture groups\<close>

text \<open>
  \<open>text.match(/^(\d+)[.)]\s+(.+)/)\<close>: the pattern is anchored, so a match starts at
  the start of the text. The first match in backtracking order gives the two groups,
  the digits and the rest.
\<close>

definition numberedMatch :: "jsstring \<Rightarrow> (jsstring \<times> jsstring) option" where
  "numberedMatch text =
     (let x = (None, text)
      in case [(between x a, between c d).
                 a \<leftarrow> ends (Plus isDigit) False x,
                 c \<leftarrow> ends (Seq (Chars (str ''.)'')) (Plus isSpace)) False a,
                 d \<leftarrow> ends (Plus notLineTerminator) False c] of
           [] \<Rightarrow> None
         | m # _ \<Rightarrow> Some m)"

text \<open>
  \<open>text.match(/^[...]\s*(.+)/)\<close> for a class of marker glyphs: the group is the text
  after the marker and the white space behind it.
\<close>

definition markerMatch :: "nat list \<Rightarrow> jsstring \<Rightarrow> jsstring option" where
  "markerMatch glyphs text =
     (case [between c d.
              a \<leftarrow> ends (Chars glyphs) False (None, text),
              c \<leftarrow> ends (Star isSpace) False a,
              d \<leftarrow> ends (Plus notLineTerminator) False c] of
        [] \<Rightarrow> None
      | m # _ \<Rightarrow> Some m)"

text \<open>The explicit bullet markers: U+2022 (twice), the hyphen and the asterisk.\<close>

definition bulletMatch :: "jsstring \<Rightarrow> jsstring option" where
  "bulletMatch text = markerMatch [8226, 45, 42, 8226] text"

text \<open>The sub-bullet markers: U+25E6, U+2023, U+2043, U+2219 and the hyphen.\<close>

definition subBulletMatch :: "jsstring \<Rightarrow> jsstring option" where
  "subBulletMatch text = markerMatch [9702, 8227, 8259, 8729, 45] text"

section \<open>The segmentation scan\<close>

text \<open>
  \<open>nonEmptyLines\<close>: the lines trimmed, the empty ones dropped. (The source also
  records \<open>originalIndex\<close> and \<open>wasEmpty\<close>, which nothing reads.)
\<close>

definition nonEmptyLines :: "jsstring list \<Rightarrow> jsstring list" where
  "nonEmptyLines raw = filter (\<lambda>l. l \<noteq> []) (map trim raw)"

text \<open>\<open>slice(Math.max(0, i - 3), Math.min(length, i + 4))\<close>; \<open>i - 3\<close> on \<open>nat\<close> stops at 0.\<close>

definition contextAt :: "jsstring list \<Rightarrow> nat \<Rightarrow> jsstring list" where
  "contextAt ls i = take (min (length ls) (i + 4) - (i - 3)) (drop (i - 3) ls)"

definition isListIntro :: "jsstring \<Rightarrow> bool" where
  "isListIntro text = list_ex (\<lambda>p. test p text) LIST_INTRO_PATTERNS"

text \<open>
  The test of the inner loop of the code block rule: the line continues the block when
  it scores 40 or more, or when it is short and the line behind it scores 50 or more.
  \<open>||\<close> and \<open>&&\<close> evaluate from left to right and stop as soon as the result is known;
  every score is taken against the context of the opening line, as in the source.
\<close>

definition continuesCode :: "jsstring list \<Rightarrow> jsstring list \<Rightarrow> nat \<Rightarrow> bool" where
  "continuesCode ls context j =
     (if analyzeCodeProbability (ls ! j) context \<ge> 40 then True
      else if length (ls ! j) < 30 \<and> j + 1 < length ls
      then analyzeCodeProbability (ls ! (j + 1)) context \<ge> 50
      else False)"

text \<open>The inner loop of the code block rule.\<close>

function collectCode :: "jsstring list \<Rightarrow> jsstring list \<Rightarrow> nat \<Rightarrow> jsstring list \<Rightarrow> jsstring list \<times> nat" where
  "collectCode ls context j codeLines =
     (if j < length ls then
        (if continuesCode ls context j
         then collectCode ls context (j + 1) (codeLines @ [ls ! j])
         else (codeLines, j))
      else (codeLines, j))"
  by pat_completeness auto
termination
  by (relation "measure (\<lambda>(ls, context, j, codeLines). length ls - j)") auto

declare collectCode.simps [simp del]

text \<open>
  The code block rule at line \<open>i\<close>: the lines of the block, the cursor behind it and the
  score of the opening line when a block is committed, \<open>None\<close> when the rule lets the
  line through to the rules below.
\<close>

definition codeBlockAt :: "jsstring list \<Rightarrow> nat \<Rightarrow> (jsstring list \<times> nat \<times> int) option" where
  "codeBlockAt ls i =
     (let text = ls ! i;
          context = contextAt ls i;
          codeProb = analyzeCodeProbability text context
      in if codeProb \<ge> 60 then
           (case collectCode ls context (i + 1) [text] of
              (codeLines, j) \<Rightarrow>
                if length codeLines \<ge> 2 \<or> codeProb \<ge> 80 then Some (codeLines, j, codeProb)
                else None)
         else None)"

text \<open>The level of a heading found by its score.\<close>

definition subTopicKeywords :: "jsstring list" where
  "subTopicKeywords = map str
     [''Example'', ''Screen'', ''Step'', ''Phase'', ''Part'', ''Section'', ''Case'', ''Scenario'']"

definition scoredLevel :: "runtime \<Rightarrow> jsstring \<Rightarrow> jsstring option \<Rightarrow> ItemType" where
  "scoredLevel rt text prev =
     (let level = (if list_ex (\<lambda>k. startsWith text k) subTopicKeywords then heading2 else heading1)
      in case prev of
           None \<Rightarrow> level
         | Some p \<Rightarrow>
             if length text < 30 \<and> p \<noteq> [] \<and> analyzeHeaderProbability rt p None (Some text) \<ge> 50
             then heading3 else level)"

text \<open>
  The numbered list rule: the number and the text when the line matches and the number
  is 1 or continues the run. \<open>parseInt\<close> gives a double; a number is compared with 1 and
  with the counter plus one, which is at most the number of lines read, and on these
  values the comparison of doubles is the comparison of the integers.
\<close>

definition numberedAt :: "jsstring \<Rightarrow> nat \<Rightarrow> (nat \<times> jsstring) option" where
  "numberedAt text counter =
     (case numberedMatch text of
        None \<Rightarrow> None
      | Some (digits, rest) \<Rightarrow>
          (let num = parseInt digits
           in if num = 1 \<or> num = counter + 1 then Some (num, rest) else None))"

text \<open>
  \<open>prev\<close> and \<open>next\<close>: the lines around line \<open>i\<close>, \<open>null\<close> at the two ends.
\<close>

definition prevLine :: "jsstring list \<Rightarrow> nat \<Rightarrow> jsstring option" where
  "prevLine ls i = (if i > 0 then Some (ls ! (i - 1)) else None)"

definition nextLine :: "jsstring list \<Rightarrow> nat \<Rightarrow> jsstring option" where
  "nextLine ls i = (if i + 1 < length ls then Some (ls ! (i + 1)) else None)"

text \<open>
  The rules below the code block rule, in the source's order. Each of them pushes one
  item, moves the cursor by one line and sets or keeps \<open>numberedListCounter\<close>: the
  result is the item and the new counter. \<open>afterBullet\<close> says that \<open>content\<close> is not
  empty and its last item is a bullet.
\<close>

definition lineItem ::
  "runtime \<Rightarrow> jsstring list \<Rightarrow> nat \<Rightarrow> nat \<Rightarrow> bool \<Rightarrow> bool \<Rightarrow> ContentItem \<times> nat" where
  "lineItem rt ls i counter afterBullet isAfterListIntro =
     (let text = ls ! i;
          prev = prevLine ls i;
          next = nextLine ls i;
          headerProb = analyzeHeaderProbability rt text prev next;
          bulletProb = analyzeBulletProbability text prev isAfterListIntro
      in case getHeadingLevel text of
           Some headingLevel \<Rightarrow> (textItem headingLevel text 95, 0)
         | None \<Rightarrow>
            if headerProb \<ge> 70 then (textItem (scoredLevel rt text prev) text headerProb, 0)
            else (case numberedAt text counter of
              Some (num, rest) \<Rightarrow> (numberedItem rest num, num)
            | None \<Rightarrow>
               (case bulletMatch text of
                  Some rest \<Rightarrow> (textItem bullet rest 95, counter)
                | None \<Rightarrow>
                   (case (if afterBullet then subBulletMatch text else None) of
                      Some rest \<Rightarrow> (textItem sub_bullet rest 90, counter)
                    | None \<Rightarrow>
                        if bulletProb \<ge> 60 \<and> length text < 120
                        then (textItem bullet text bulletProb, counter)
                        else (textItem paragraph_item text (100 - headerProb - bulletProb), 0)))))"

text \<open>The state of the scan: the cursor \<open>i\<close> and the three variables the loop updates.\<close>

record scan =
  idx :: nat
  numberedListCounter :: nat
  lastListIntroIndex :: int
  content :: "ContentItem list"

definition emit :: "scan \<Rightarrow> ContentItem \<Rightarrow> nat \<Rightarrow> nat \<Rightarrow> scan" where
  "emit st x i counter =
     st\<lparr> idx := i, numberedListCounter := counter, content := content st @ [x] \<rparr>"

definition afterBullet :: "ContentItem list \<Rightarrow> bool" where
  "afterBullet cs = (cs \<noteq> [] \<and> type (last cs) = bullet)"

text \<open>One round of the \<open>while\<close> loop, for a cursor inside the lines.\<close>

definition step :: "runtime \<Rightarrow> jsstring list \<Rightarrow> scan \<Rightarrow> scan" where
  "step rt ls st =
     (let i = idx st;
          st1 = (if isListIntro (ls ! i) then st\<lparr> lastListIntroIndex := int i \<rparr> else st);
          isAfterListIntro = (int i - lastListIntroIndex st1 \<le> 5 \<and> int i > lastListIntroIndex st1)
      in case codeBlockAt ls i of
           Some (codeLines, j, codeProb) \<Rightarrow> emit st1 (codeItem codeLines codeProb) j 0
         | None \<Rightarrow>
             (case lineItem rt ls i (numberedListCounter st1) (afterBullet (content st1))
                     isAfterListIntro of
                (item, counter) \<Rightarrow> emit st1 item (i + 1) counter))"

text \<open>The cursor moves forward in every round: the inner loop never moves it back.\<close>

lemma collectCode_cursor: "j \<le> snd (collectCode ls ctx j codeLines)"
proof (induction ls ctx j codeLines rule: collectCode.induct)
  case (1 ls ctx j codeLines)
  show ?case
  proof (cases "j < length ls \<and> continuesCode ls ctx j")
    case True
    then have "j + 1 \<le> snd (collectCode ls ctx (j + 1) (codeLines @ [ls ! j]))"
      using "1.IH" by blast
    moreover have "collectCode ls ctx j codeLines
        = collectCode ls ctx (j + 1) (codeLines @ [ls ! j])"
      using True by (subst collectCode.simps) auto
    ultimately show ?thesis by simp
  next
    case False
    then have "collectCode ls ctx j codeLines = (codeLines, j)"
      by (subst collectCode.simps) auto
    then show ?thesis by simp
  qed
qed

lemma codeBlockAt_cursor: "codeBlockAt ls i = Some (codeLines, j, codeProb) \<Longrightarrow> i < j"
proof -
  assume a: "codeBlockAt ls i = Some (codeLines, j, codeProb)"
  have "i + 1 \<le> snd (collectCode ls (contextAt ls i) (i + 1) [ls ! i])"
    by (rule collectCode_cursor)
  moreover have "j = snd (collectCode ls (contextAt ls i) (i + 1) [ls ! i])"
    using a by (auto simp: codeBlockAt_def Let_def split: if_splits prod.splits)
  ultimately show ?thesis by simp
qed

lemma idx_emit [simp]: "idx (emit st x i counter) = i"
  by (simp add: emit_def)

lemma step_cursor: "idx st < idx (step rt ls st)"
  by (auto simp: step_def Let_def split: option.splits prod.splits dest: codeBlockAt_cursor)

text \<open>The \<open>while\<close> loop of \<open>extractContent\<close>.\<close>

function extract_loop :: "runtime \<Rightarrow> jsstring list \<Rightarrow> scan \<Rightarrow> scan" where
  "extract_loop rt ls st = (if idx st < length ls then extract_loop rt ls (step rt ls st) else st)"
  by pat_completeness auto
termination
proof (relation "measure (\<lambda>(rt, ls, st). length ls - idx st)")
  show "wf (measure (\<lambda>(rt, ls, st). length ls - idx st))" by simp
next
  fix rt :: runtime and ls :: "jsstring list" and st :: scan
  assume "idx st < length ls"
  moreover have "idx st < idx (step rt ls st)" by (rule step_cursor)
  ultimately show "((rt, ls, step rt ls st), (rt, ls, st)) \<in> measure (\<lambda>(rt, ls, st). length ls - idx st)"
    by simp
qed

declare extract_loop.simps [simp del]

definition initial :: scan where
  "initial = \<lparr> idx = 0, numberedListCounter = 0, lastListIntroIndex = - 10, content = [] \<rparr>"

section \<open>Post-processing\<close>

text \<open>
  The loop of \<open>postProcessContent\<close> over the index \<open>i\<close>. \<open>result[result.length - 1]\<close>
  of an empty \<open>result\<close> is \<open>undefined\<close>, which the tests below treat as \<open>null\<close>.
\<close>

definition introText :: "ContentItem option \<Rightarrow> bool" where
  "introText prev =
     (case prev of
        None \<Rightarrow> False
      | Some p \<Rightarrow> (case item_text p of None \<Rightarrow> False | Some t \<Rightarrow> t \<noteq> [] \<and> isListIntro t))"

definition shortParagraph :: "ContentItem \<Rightarrow> bool" where
  "shortParagraph item =
     (type item = paragraph_item
      \<and> (case item_text item of None \<Rightarrow> False | Some t \<Rightarrow> t \<noteq> [] \<and> length t < 100))"

text \<open>
  The item pushed for \<open>item\<close>, given the item pushed before it and the item that follows
  it in \<open>content\<close>: a short paragraph becomes a bullet behind a list introduction or
  between two bullets; every other item is pushed as it is.
\<close>

definition reclassify :: "ContentItem option \<Rightarrow> ContentItem \<Rightarrow> ContentItem option \<Rightarrow> ContentItem" where
  "reclassify prev item next =
     (if shortParagraph item
         \<and> (introText prev
             \<or> (map_option type prev = Some bullet \<and> map_option type next = Some bullet))
      then item\<lparr> type := bullet \<rparr>
      else item)"

function postLoop :: "ContentItem list \<Rightarrow> nat \<Rightarrow> ContentItem list \<Rightarrow> ContentItem list" where
  "postLoop cs i result =
     (if i < length cs then
        (let item = cs ! i;
             prev = (if i > 0 \<and> result \<noteq> [] then Some (last result) else None);
             next = (if i + 1 < length cs then Some (cs ! (i + 1)) else None)
         in postLoop cs (i + 1) (result @ [reclassify prev item next]))
      else result)"
  by pat_completeness auto
termination
  by (relation "measure (\<lambda>(cs, i, result). length cs - i)") auto

declare postLoop.simps [simp del]

definition postProcessContent :: "ContentItem list \<Rightarrow> ContentItem list" where
  "postProcessContent cs = postLoop cs 0 []"

section \<open>\<open>extractContent\<close>\<close>

text \<open>
  \<open>extractContent\<close> from the lines on: the conversion of the uploaded file to lines is
  the work of the document library. The first argument is the runtime's case mapping.
\<close>

definition extractContent :: "runtime \<Rightarrow> jsstring list \<Rightarrow> ContentItem list" where
  "extractContent rt raw =
     postProcessContent (content (extract_loop rt (nonEmptyLines raw) initial))"

section \<open>Predicates of the properties\<close>

definition isHeading :: "ItemType \<Rightarrow> bool" where
  "isHeading ty = (ty = heading1 \<or> ty = heading2 \<or> ty = heading3)"

text \<open>The item the pass sees before position \<open>k\<close> of its output, and behind it in its input.\<close>

definition prevOf :: "ContentItem list \<Rightarrow> nat \<Rightarrow> ContentItem option" where
  "prevOf out k = (if k > 0 then Some (out ! (k - 1)) else None)"

definition nextOf :: "ContentItem list \<Rightarrow> nat \<Rightarrow> ContentItem option" where
  "nextOf cs k = (if k + 1 < length cs then Some (cs ! (k + 1)) else None)"

text \<open>The number of lines an item stands for: the lines of a code block, one line otherwise.\<close>

definition span :: "ContentItem \<Rightarrow> nat" where
  "span x = (case lines x of None \<Rightarrow> 1 | Some ls \<Rightarrow> length ls)"

definition subBulletsFollowBullets :: "ContentItem list \<Rightarrow> bool" where
  "subBulletsFollowBullets cs =
     (\<forall>k < length cs. type (cs ! k) = sub_bullet \<longrightarrow> 0 < k \<and> type (cs ! (k - 1)) = bullet)"

text \<open>
  \<open>committed ls x\<close>: the code block \<open>x\<close> is what the code block rule commits at some
  line \<open>i\<close> of \<open>ls\<close>. Its first line is line \<open>i\<close>, its confidence is the score of that
  line against its context, and it has two lines or more unless that score is 80 or more.
\<close>

definition committed :: "jsstring list \<Rightarrow> ContentItem \<Rightarrow> bool" where
  "committed ls x =
     (\<exists>i codeLines. i < length ls
        \<and> lines x = Some codeLines \<and> codeLines \<noteq> [] \<and> hd codeLines = ls ! i
        \<and> confidence x = Some (analyzeCodeProbability (ls ! i) (contextAt ls i))
        \<and> (2 \<le> length codeLines \<or> 80 \<le> analyzeCodeProbability (ls ! i) (contextAt ls i)))"

text \<open>
  What a round does to \<open>numberedListCounter\<close>, read from the item that the round pushes:
  a numbered item sets the counter to its number, a bullet or a sub-bullet leaves it as
  it is, every other item (a heading, a paragraph, a code block) resets it to 0. The
  items are those of the scan, before the post-processing pass changes any type.
\<close>

definition counterAfter :: "nat \<Rightarrow> ContentItem \<Rightarrow> nat" where
  "counterAfter c x =
     (if type x = numbered then (case number x of None \<Rightarrow> 0 | Some n \<Rightarrow> n)
      else if type x = bullet \<or> type x = sub_bullet then c
      else 0)"

text \<open>
  \<open>scanned\<close>: the array \<open>content\<close> as the scan leaves it, which \<open>extractContent\<close>
  hands to the post-processing pass.
\<close>

definition scanned :: "runtime \<Rightarrow> jsstring list \<Rightarrow> ContentItem list" where
  "scanned rt raw = content (extract_loop rt (nonEmptyLines raw) initial)"

text \<open>
  \<open>numberingOk c xs\<close>: started with the counter \<open>c\<close>, every numbered item of \<open>xs\<close>
  carries 1 or the counter plus one.
\<close>

fun numberingOk :: "nat \<Rightarrow> ContentItem list \<Rightarrow> bool" where
  "numberingOk c [] = True"
| "numberingOk c (x # xs) =
     ((if type x = numbered then number x = Some 1 \<or> number x = Some (c + 1) else True)
      \<and> numberingOk (counterAfter c x) xs)"

text \<open>
  The claim as the specification states it: a numbered item carries 1 when it starts a
  run, that is when it is the first item or follows an item that is not numbered, and
  the number of the item before it plus one otherwise. \<open>c\<close> is the number of the item
  before, 0 when that item is not numbered.
\<close>

fun runsCountFromOne :: "nat \<Rightarrow> ContentItem list \<Rightarrow> bool" where
  "runsCountFromOne c [] = True"
| "runsCountFromOne c (x # xs) =
     (if type x = numbered then number x = Some (c + 1) \<and> runsCountFromOne (c + 1) xs
      else runsCountFromOne 0 xs)"

definition numbering :: "scan \<Rightarrow> bool" where
  "numbering st =
     (numberingOk 0 (content st)
      \<and> numberedListCounter st = foldl counterAfter 0 (content st))"

text \<open>
  A greedy run of a class is deterministic when what follows it cannot start with a code
  unit of the class: only the longest run can be continued. \<open>chr\<close> steps over one code
  unit of a class, \<open>run\<close> over the longest run of a class, \<open>run1\<close> over the longest run
  when it is not empty.
\<close>

definition endPrev :: "nat option \<Rightarrow> jsstring \<Rightarrow> nat option" where
  "endPrev p r = (if r = [] then p else Some (last r))"

definition chr :: "(nat \<Rightarrow> bool) \<Rightarrow> pos \<Rightarrow> pos option" where
  "chr R x = (case snd x of [] \<Rightarrow> None | c # cs \<Rightarrow> if R c then Some (Some c, cs) else None)"

definition run :: "(nat \<Rightarrow> bool) \<Rightarrow> pos \<Rightarrow> pos" where
  "run P x = (endPrev (fst x) (takeWhile P (snd x)), dropWhile P (snd x))"

definition run1 :: "(nat \<Rightarrow> bool) \<Rightarrow> pos \<Rightarrow> pos option" where
  "run1 P x = (case snd x of [] \<Rightarrow> None | c # cs \<Rightarrow> if P c then Some (run P x) else None)"

definition rejects :: "rx \<Rightarrow> (nat \<Rightarrow> bool) \<Rightarrow> bool" where
  "rejects K P = (\<forall>q c cs. P c \<longrightarrow> ends K False (q, c # cs) = [])"

text \<open>\<open>numPrefix\<close>: a run of digits and a dot, \<open>/\d+\./\<close>.\<close>

definition isDot :: "nat \<Rightarrow> bool" where
  "isDot c = (c = 46)"

definition numPrefix :: "pos \<Rightarrow> pos option" where
  "numPrefix x = Option.bind (run1 isDigit x) (chr isDot)"

text \<open>What the six patterns of the numeric prefixes accept.\<close>

definition level1 :: "jsstring \<Rightarrow> pos option" where
  "level1 s = Option.bind (numPrefix (None, s)) (chr isSpace)"

definition level2 :: "jsstring \<Rightarrow> pos option" where
  "level2 s = Option.bind (Option.bind (numPrefix (None, s)) (run1 isDigit)) (chr isSpace)"

definition level3 :: "jsstring \<Rightarrow> pos option" where
  "level3 s = Option.bind (Option.bind (Option.bind (numPrefix (None, s)) numPrefix) (run1 isDigit))
                 (chr isSpace)"

definition section1 :: "jsstring \<Rightarrow> pos option" where
  "section1 s = Option.bind (Option.bind (numPrefix (None, s)) (run1 isSpace)) (chr isUpperAZ)"

definition section2 :: "jsstring \<Rightarrow> pos option" where
  "section2 s = Option.bind (Option.bind (Option.bind (numPrefix (None, s)) (run1 isDigit))
                   (run1 isSpace)) (chr isUpperAZ)"

definition section3 :: "jsstring \<Rightarrow> pos option" where
  "section3 s = Option.bind (Option.bind (Option.bind (Option.bind (numPrefix (None, s)) numPrefix)
                   (run1 isDigit)) (run1 isSpace)) (chr isUpperAZ)"

text \<open>
  The level the specification gives to a line with a numeric prefix and a capital:
  three numbers make level 3, two numbers level 2, one number level 1.
\<close>

definition sectionLevel :: "jsstring \<Rightarrow> ItemType option" where
  "sectionLevel trimmed =
     (if test re_section3 trimmed then Some heading3
      else if test re_section2 trimmed then Some heading2
      else if test re_section1 trimmed then Some heading1
      else None)"

text \<open>
  What an item holds of its line, said without the matcher. \<open>stripped r\<close> is the text
  \<open>r\<close> without the white space at its start and cut before its first line terminator
  (CR, LF, U+2028 or U+2029): whatever stands behind a line terminator inside a line is
  lost. \<open>markedLine glyphs l\<close> is the text of a line that starts with one of the glyphs:
  the line behind the glyph, stripped. \<open>numberedLine l\<close> gives the digits at the start
  of a line and its text: the line behind the digits, a full stop or a closing bracket
  and at least one white space, stripped.
\<close>

definition stripped :: "jsstring \<Rightarrow> jsstring" where
  "stripped r = takeWhile notLineTerminator (dropWhile isSpace r)"

definition markedLine :: "nat list \<Rightarrow> jsstring \<Rightarrow> jsstring option" where
  "markedLine glyphs l =
     (case l of
        [] \<Rightarrow> None
      | m # r \<Rightarrow> if m \<in> set glyphs \<and> stripped r \<noteq> [] then Some (stripped r) else None)"

definition numberedLine :: "jsstring \<Rightarrow> (jsstring \<times> jsstring) option" where
  "numberedLine l =
     (case dropWhile isDigit l of
        [] \<Rightarrow> None
      | p # r \<Rightarrow>
          if takeWhile isDigit l \<noteq> [] \<and> (p = 46 \<or> p = 41) \<and> r \<noteq> [] \<and> isSpace (hd r)
             \<and> stripped r \<noteq> []
          then Some (takeWhile isDigit l, stripped r) else None)"

text \<open>
  \<open>covers x seg\<close>: the item \<open>x\<close> stands for the lines \<open>seg\<close>. A code block holds its
  lines as they are. Every other item stands for one line. A heading holds the line as
  it is. A numbered item holds the number and the text of the numbered line. A
  sub-bullet holds the text behind its glyph. When the line starts with U+2022, a hyphen
  or an asterisk and has text behind it, the item is a bullet that holds this text;
  every other bullet (found by its score, or made from a paragraph) and every
  paragraph holds the line as it is.
\<close>

definition covers :: "ContentItem \<Rightarrow> jsstring list \<Rightarrow> bool" where
  "covers x seg =
     (if type x = code_block then lines x = Some seg \<and> seg \<noteq> []
      else (case seg of
              [l] \<Rightarrow>
                (case item_text x of
                   None \<Rightarrow> False
                 | Some t \<Rightarrow>
                     if type x = numbered
                     then (case numberedLine l of
                             None \<Rightarrow> False
                           | Some (digits, rest) \<Rightarrow> t = rest \<and> number x = Some (parseInt digits))
                     else if type x = sub_bullet
                     then markedLine [9702, 8227, 8259, 8729, 45] l = Some t
                     else if type x = bullet \<or> type x = paragraph_item
                     then (case markedLine [8226, 45, 42] l of
                             None \<Rightarrow> t = l
                           | Some rest \<Rightarrow> type x = bullet \<and> t = rest)
                     else t = l)
            | _ \<Rightarrow> False))"

text \<open>A line as the scan reads it: trimmed and not empty.\<close>

definition trimmedLine :: "jsstring \<Rightarrow> bool" where
  "trimmedLine l = (l \<noteq> [] \<and> \<not> isSpace (last l))"

text \<open>
  \<open>segmented Q ls st\<close>: the items pushed so far stand, in order, for consecutive segments
  of the lines before the cursor, each item related to its segment by \<open>Q\<close>.
\<close>

definition segmented :: "(ContentItem \<Rightarrow> jsstring list \<Rightarrow> bool) \<Rightarrow> jsstring list \<Rightarrow> scan \<Rightarrow> bool" where
  "segmented Q ls st =
     (idx st \<le> length ls
      \<and> (\<exists>segs. concat segs = take (idx st) ls \<and> list_all2 Q (content st) segs))"

text \<open>
  \<open>headed x seg\<close>: a code block holds its lines; every other item stands for one line,
  and when that line has a numeric prefix and a capital, the item is the heading of the
  prefix's level with the whole line as its text and the confidence 95.
\<close>

definition headed :: "ContentItem \<Rightarrow> jsstring list \<Rightarrow> bool" where
  "headed x seg =
     (if type x = code_block then lines x = Some seg \<and> seg \<noteq> []
      else (case seg of
              [l] \<Rightarrow> (case sectionLevel (trim l) of
                         None \<Rightarrow> True
                       | Some lv \<Rightarrow> x = textItem lv l 95)
            | _ \<Rightarrow> False))"

text \<open>
  The text that the specification's flattening takes from the items: the lines of a code
  block, the text of any other item.
\<close>

definition flatten :: "ContentItem list \<Rightarrow> jsstring list" where
  "flatten xs = concat (map (\<lambda>x. case lines x of
                                    Some ls \<Rightarrow> ls
                                  | None \<Rightarrow> (case item_text x of None \<Rightarrow> [] | Some t \<Rightarrow> [t])) xs)"

subsection \<open>Evaluation by constructor\<close>

text \<open>
  The equations of the matcher and of the string functions once more, with every choice
  made by the constructor of an argument: the simplifier then evaluates a concrete match
  from the inside out and never copies the input into the branch of a conditional.
\<close>

fun pick :: "bool \<Rightarrow> 'a list \<Rightarrow> 'a list" where
  "pick True xs = xs"
| "pick False xs = []"

fun nonEmpty :: "'a list \<Rightarrow> bool" where
  "nonEmpty [] = False"
| "nonEmpty (x # xs) = True"

fun manyStep :: "bool \<Rightarrow> (nat \<Rightarrow> bool) \<Rightarrow> bool \<Rightarrow> nat option \<Rightarrow> nat \<Rightarrow> jsstring \<Rightarrow> pos list \<Rightarrow> pos list" where
  "manyStep True P ci p c cs acc = many P ci (Some c) cs ((p, c # cs) # acc)"
| "manyStep False P ci p c cs acc = (p, c # cs) # acc"

fun kwNext :: "bool \<Rightarrow> bool \<Rightarrow> int + int \<Rightarrow> int + int" where
  "kwNext True b r = Inl 90"
| "kwNext False True r = Inl 85"
| "kwNext False False r = r"

fun bonus :: "bool \<Rightarrow> int \<Rightarrow> int" where
  "bonus True n = n"
| "bonus False n = 0"

section \<open>The loop and its invariants\<close>

lemma extract_loop_invariant:
  assumes "P st" and "\<And>s. P s \<Longrightarrow> idx s < length ls \<Longrightarrow> P (step rt ls s)"
  shows "P (extract_loop rt ls st)"
  using assms
proof (induction rt ls st rule: extract_loop.induct)
  case (1 rt ls st)
  show ?case
  proof (cases "idx st < length ls")
    case True
    then have "P (step rt ls st)" using "1.prems" by blast
    then have "P (extract_loop rt ls (step rt ls st))" using "1.IH" True "1.prems"(2) by blast
    then show ?thesis using True by (subst extract_loop.simps) simp
  next
    case False
    then show ?thesis using "1.prems"(1) by (subst extract_loop.simps) simp
  qed
qed

lemma extract_loop_done: "length ls \<le> idx (extract_loop rt ls st)"
proof (induction rt ls st rule: extract_loop.induct)
  case (1 rt ls st)
  show ?case
  proof (cases "idx st < length ls")
    case True
    then show ?thesis using "1.IH" by (subst extract_loop.simps) simp
  next
    case False
    then show ?thesis by (subst extract_loop.simps) simp
  qed
qed

lemma collectCode_bound: "j \<le> length ls \<Longrightarrow> snd (collectCode ls ctx j codeLines) \<le> length ls"
proof (induction ls ctx j codeLines rule: collectCode.induct)
  case (1 ls ctx j codeLines)
  show ?case
  proof (cases "j < length ls \<and> continuesCode ls ctx j")
    case True
    then have "snd (collectCode ls ctx (j + 1) (codeLines @ [ls ! j])) \<le> length ls"
      using "1.IH" by simp
    moreover have "collectCode ls ctx j codeLines
        = collectCode ls ctx (j + 1) (codeLines @ [ls ! j])"
      using True by (subst collectCode.simps) auto
    ultimately show ?thesis by simp
  next
    case False
    then have "collectCode ls ctx j codeLines = (codeLines, j)"
      by (subst collectCode.simps) auto
    then show ?thesis using "1.prems" by simp
  qed
qed

text \<open>The lines the inner loop collects are the lines between the two cursors.\<close>

lemma collectCode_lines:
  "j \<le> length ls \<Longrightarrow>
   fst (collectCode ls ctx j codeLines)
     = codeLines @ take (snd (collectCode ls ctx j codeLines) - j) (drop j ls)"
proof (induction ls ctx j codeLines rule: collectCode.induct)
  case (1 ls ctx j codeLines)
  show ?case
  proof (cases "j < length ls \<and> continuesCode ls ctx j")
    case True
    let ?r = "collectCode ls ctx (j + 1) (codeLines @ [ls ! j])"
    have eq: "collectCode ls ctx j codeLines = ?r"
      using True by (subst collectCode.simps) auto
    have ih: "fst ?r = (codeLines @ [ls ! j]) @ take (snd ?r - (j + 1)) (drop (j + 1) ls)"
      using "1.IH" True by simp
    have ge: "j + 1 \<le> snd ?r" by (rule collectCode_cursor)
    have "drop j ls = ls ! j # drop (j + 1) ls"
      using True by (simp add: Cons_nth_drop_Suc)
    moreover have "snd ?r - j = Suc (snd ?r - (j + 1))" using ge by simp
    ultimately have "take (snd ?r - j) (drop j ls) = ls ! j # take (snd ?r - (j + 1)) (drop (j + 1) ls)"
      by simp
    then show ?thesis using eq ih by simp
  next
    case False
    then have "collectCode ls ctx j codeLines = (codeLines, j)"
      by (subst collectCode.simps) auto
    then show ?thesis by simp
  qed
qed

lemma codeBlockAt_Some:
  assumes "codeBlockAt ls i = Some (codeLines, j, codeProb)" and "i < length ls"
  shows "i < j" and "j \<le> length ls" and "codeLines = take (j - i) (drop i ls)"
    and "codeProb = analyzeCodeProbability (ls ! i) (contextAt ls i)"
    and "length codeLines \<ge> 2 \<or> codeProb \<ge> 80"
proof -
  let ?r = "collectCode ls (contextAt ls i) (i + 1) [ls ! i]"
  have r: "codeLines = fst ?r" "j = snd ?r"
    and p: "codeProb = analyzeCodeProbability (ls ! i) (contextAt ls i)"
    and c: "length codeLines \<ge> 2 \<or> codeProb \<ge> 80"
    using assms(1) by (auto simp: codeBlockAt_def Let_def split: if_splits prod.splits)
  show "i < j" using assms(1) by (rule codeBlockAt_cursor)
  show "j \<le> length ls" using r(2) assms(2) collectCode_bound[of "i + 1" ls] by simp
  have ge: "i + 1 \<le> j" using r(2) collectCode_cursor[of "i + 1" ls] by simp
  have "fst ?r = [ls ! i] @ take (snd ?r - (i + 1)) (drop (i + 1) ls)"
    using assms(2) by (intro collectCode_lines) simp
  moreover have "drop i ls = ls ! i # drop (i + 1) ls"
    using assms(2) by (simp add: Cons_nth_drop_Suc)
  moreover have "j - i = Suc (j - (i + 1))" using ge by simp
  ultimately show "codeLines = take (j - i) (drop i ls)" using r by simp
  show "codeProb = analyzeCodeProbability (ls ! i) (contextAt ls i)" by (rule p)
  show "length codeLines \<ge> 2 \<or> codeProb \<ge> 80" by (rule c)
qed

text \<open>What one round does to the state, by the rule that fires.\<close>

lemma step_cases:
  assumes "idx st < length ls"
  obtains (code) codeLines j codeProb where
      "codeBlockAt ls (idx st) = Some (codeLines, j, codeProb)"
      "idx (step rt ls st) = j"
      "content (step rt ls st) = content st @ [codeItem codeLines codeProb]"
      "numberedListCounter (step rt ls st) = 0"
  | (line) b item counter where
      "codeBlockAt ls (idx st) = None"
      "lineItem rt ls (idx st) (numberedListCounter st) (afterBullet (content st)) b = (item, counter)"
      "idx (step rt ls st) = idx st + 1"
      "content (step rt ls st) = content st @ [item]"
      "numberedListCounter (step rt ls st) = counter"
proof (cases "codeBlockAt ls (idx st)")
  case None
  obtain b where b: "b = (int (idx st) - lastListIntroIndex (if isListIntro (ls ! idx st) then st\<lparr> lastListIntroIndex := int (idx st) \<rparr> else st) \<le> 5
      \<and> int (idx st) > lastListIntroIndex (if isListIntro (ls ! idx st) then st\<lparr> lastListIntroIndex := int (idx st) \<rparr> else st))"
    by simp
  obtain item counter where ic:
    "lineItem rt ls (idx st) (numberedListCounter st) (afterBullet (content st)) b = (item, counter)"
    by (cases "lineItem rt ls (idx st) (numberedListCounter st) (afterBullet (content st)) b")
  show ?thesis
  proof (rule line[OF None ic])
    show "idx (step rt ls st) = idx st + 1"
      using None ic b by (simp add: step_def Let_def emit_def split: prod.splits)
    show "content (step rt ls st) = content st @ [item]"
      using None ic b by (auto simp: step_def Let_def emit_def split: prod.splits)
    show "numberedListCounter (step rt ls st) = counter"
      using None ic b by (auto simp: step_def Let_def emit_def split: prod.splits)
  qed
next
  case (Some r)
  obtain codeLines j codeProb where r: "r = (codeLines, j, codeProb)" by (cases r)
  show ?thesis
  proof (rule code)
    show "codeBlockAt ls (idx st) = Some (codeLines, j, codeProb)" using Some r by simp
    show "idx (step rt ls st) = j" using Some r by (simp add: step_def Let_def)
    show "content (step rt ls st) = content st @ [codeItem codeLines codeProb]"
      using Some r by (simp add: step_def Let_def emit_def)
    show "numberedListCounter (step rt ls st) = 0"
      using Some r by (simp add: step_def Let_def emit_def)
  qed
qed

lemma getHeadingLevel_heading: "getHeadingLevel text = Some lv \<Longrightarrow> isHeading lv"
  by (auto simp: getHeadingLevel_def Let_def isHeading_def split: if_splits)

lemma scoredLevel_heading: "isHeading (scoredLevel rt text prev)"
  by (simp add: scoredLevel_def Let_def isHeading_def split: option.splits)

text \<open>The seven rules below the code block rule, as cases of \<open>lineItem\<close>.\<close>

lemma lineItem_cases:
  obtains
    (level) lv where
      "getHeadingLevel (ls ! i) = Some lv"
      "lineItem rt ls i c ab b = (textItem lv (ls ! i) 95, 0)"
  | (scored) lv p where
      "getHeadingLevel (ls ! i) = None" "isHeading lv"
      "lineItem rt ls i c ab b = (textItem lv (ls ! i) p, 0)"
  | (number) num rest where
      "getHeadingLevel (ls ! i) = None"
      "numberedAt (ls ! i) c = Some (num, rest)"
      "lineItem rt ls i c ab b = (numberedItem rest num, num)"
  | (marker) rest where
      "getHeadingLevel (ls ! i) = None"
      "numberedAt (ls ! i) c = None"
      "bulletMatch (ls ! i) = Some rest"
      "lineItem rt ls i c ab b = (textItem bullet rest 95, c)"
  | (sub) rest where
      "getHeadingLevel (ls ! i) = None"
      "numberedAt (ls ! i) c = None"
      "bulletMatch (ls ! i) = None" "ab"
      "subBulletMatch (ls ! i) = Some rest"
      "lineItem rt ls i c ab b = (textItem sub_bullet rest 90, c)"
  | (inferred) p where
      "getHeadingLevel (ls ! i) = None"
      "numberedAt (ls ! i) c = None"
      "bulletMatch (ls ! i) = None"
      "lineItem rt ls i c ab b = (textItem bullet (ls ! i) p, c)"
  | (para) p where
      "getHeadingLevel (ls ! i) = None"
      "numberedAt (ls ! i) c = None"
      "bulletMatch (ls ! i) = None"
      "lineItem rt ls i c ab b = (textItem paragraph_item (ls ! i) p, 0)"
proof (cases "getHeadingLevel (ls ! i)")
  case (Some lv)
  then have "lineItem rt ls i c ab b = (textItem lv (ls ! i) 95, 0)"
    by (simp add: lineItem_def Let_def)
  then show ?thesis using Some level by blast
next
  case None
  define prev where "prev = prevLine ls i"
  define nxt where "nxt = nextLine ls i"
  define hp where "hp = analyzeHeaderProbability rt (ls ! i) prev nxt"
  define bp where "bp = analyzeBulletProbability (ls ! i) prev b"
  show ?thesis
  proof (cases "hp \<ge> 70")
    case True
    then have "lineItem rt ls i c ab b = (textItem (scoredLevel rt (ls ! i) prev) (ls ! i) hp, 0)"
      using None unfolding lineItem_def Let_def prev_def[symmetric] nxt_def[symmetric] hp_def[symmetric] bp_def[symmetric]
          by simp
    then show ?thesis using None scored scoredLevel_heading by blast
  next
    case low: False
    show ?thesis
    proof (cases "numberedAt (ls ! i) c")
      case (Some r)
      obtain num rest where r: "r = (num, rest)" by (cases r)
      have "lineItem rt ls i c ab b = (numberedItem rest num, num)"
        using None low Some r unfolding lineItem_def Let_def prev_def[symmetric] nxt_def[symmetric] hp_def[symmetric] bp_def[symmetric]
          by simp
      then show ?thesis using None Some r number by blast
    next
      case nn: None
      show ?thesis
      proof (cases "bulletMatch (ls ! i)")
        case (Some rest)
        have "lineItem rt ls i c ab b = (textItem bullet rest 95, c)"
          using None low nn Some unfolding lineItem_def Let_def prev_def[symmetric] nxt_def[symmetric] hp_def[symmetric] bp_def[symmetric]
          by simp
        then show ?thesis using None nn Some marker by blast
      next
        case nb: None
        show ?thesis
        proof (cases "if ab then subBulletMatch (ls ! i) else None")
          case (Some rest)
          have "lineItem rt ls i c ab b = (textItem sub_bullet rest 90, c)"
            using None low nn nb Some unfolding lineItem_def Let_def prev_def[symmetric] nxt_def[symmetric] hp_def[symmetric] bp_def[symmetric]
          by simp
          moreover have "ab" "subBulletMatch (ls ! i) = Some rest"
            using Some by (auto split: if_splits)
          ultimately show ?thesis using None nn nb sub by blast
        next
          case ns: None
          show ?thesis
          proof (cases "bp \<ge> 60 \<and> length (ls ! i) < 120")
            case True
            have "lineItem rt ls i c ab b = (textItem bullet (ls ! i) bp, c)"
              using None low nn nb ns True
              unfolding lineItem_def Let_def prev_def[symmetric] nxt_def[symmetric] hp_def[symmetric] bp_def[symmetric]
              by auto
            then show ?thesis using None nn nb inferred by blast
          next
            case False
            have "lineItem rt ls i c ab b = (textItem paragraph_item (ls ! i) (100 - hp - bp), 0)"
              using None low nn nb ns False
              unfolding lineItem_def Let_def prev_def[symmetric] nxt_def[symmetric] hp_def[symmetric] bp_def[symmetric]
              by auto
            then show ?thesis using None nn nb para by blast
          qed
        qed
      qed
    qed
  qed
qed

section \<open>The post-processing pass, item by item\<close>

lemma postLoop_spec:
  assumes "length result = i" and "i \<le> length cs"
  shows "length (postLoop cs i result) = length cs
    \<and> take i (postLoop cs i result) = result
    \<and> (\<forall>k. i \<le> k \<and> k < length cs \<longrightarrow>
          postLoop cs i result ! k
            = reclassify (prevOf (postLoop cs i result) k) (cs ! k) (nextOf cs k))"
  using assms
proof (induction cs i result rule: postLoop.induct)
  case (1 cs i result)
  show ?case
  proof (cases "i < length cs")
    case False
    then have "postLoop cs i result = result" by (subst postLoop.simps) simp
    then show ?thesis using False "1.prems" by auto
  next
    case True
    define prev where "prev = (if i > 0 \<and> result \<noteq> [] then Some (last result) else None)"
    define x where "x = reclassify prev (cs ! i) (nextOf cs i)"
    define out where "out = postLoop cs (i + 1) (result @ [x])"
    have eq: "postLoop cs i result = out"
      using True by (subst postLoop.simps) (simp add: Let_def out_def x_def prev_def nextOf_def)
    have ih: "length out = length cs \<and> take (i + 1) out = result @ [x]
      \<and> (\<forall>k. i + 1 \<le> k \<and> k < length cs \<longrightarrow> out ! k = reclassify (prevOf out k) (cs ! k) (nextOf cs k))"
      unfolding out_def x_def prev_def nextOf_def
      using "1.IH"[OF True refl refl refl] "1.prems" True by (simp add: nextOf_def)
    have len: "length out = length cs" using ih by simp
    have tk: "take (i + 1) out = result @ [x]" using ih by simp
    have "take i (take (i + 1) out) = take i (result @ [x])" using tk by simp
    then have tk2: "take i out = result" using "1.prems" by (simp add: min_def)
    have "take (i + 1) out ! i = (result @ [x]) ! i" using tk by simp
    then have at: "out ! i = x" using "1.prems" by (simp add: nth_append)
    have pv: "prevOf out i = prev"
    proof (cases "i > 0")
      case False
      then show ?thesis by (simp add: prevOf_def prev_def)
    next
      case pos: True
      have "take i out ! (i - 1) = result ! (i - 1)" using tk2 by simp
      then have "out ! (i - 1) = result ! (i - 1)" using pos by simp
      moreover have "result \<noteq> []" using pos "1.prems" by auto
      moreover have "last result = result ! (i - 1)"
        using \<open>result \<noteq> []\<close> "1.prems" by (simp add: last_conv_nth)
      ultimately show ?thesis using pos by (simp add: prevOf_def prev_def)
    qed
    have "\<forall>k. i \<le> k \<and> k < length cs \<longrightarrow> out ! k = reclassify (prevOf out k) (cs ! k) (nextOf cs k)"
    proof (intro allI impI)
      fix k assume k: "i \<le> k \<and> k < length cs"
      show "out ! k = reclassify (prevOf out k) (cs ! k) (nextOf cs k)"
      proof (cases "k = i")
        case True
        then show ?thesis using at pv by (simp add: x_def)
      next
        case False
        then show ?thesis using ih k by simp
      qed
    qed
    then show ?thesis using eq len tk2 by simp
  qed
qed

lemma postProcessContent_spec:
  "length (postProcessContent cs) = length cs"
  "k < length cs \<Longrightarrow>
     postProcessContent cs ! k = reclassify (prevOf (postProcessContent cs) k) (cs ! k) (nextOf cs k)"
  using postLoop_spec[of "[]" 0 cs] by (simp_all add: postProcessContent_def)

text \<open>The pass changes nothing but the type of a paragraph, which it may turn into a bullet.\<close>

lemma reclassify_cases:
  "reclassify prev x nxt = x
   \<or> (type x = paragraph_item \<and> reclassify prev x nxt = x\<lparr> type := bullet \<rparr>)"
  by (simp add: reclassify_def shortParagraph_def)

lemma postProcessContent_cases:
  assumes "k < length cs"
  shows "postProcessContent cs ! k = cs ! k
   \<or> (type (cs ! k) = paragraph_item \<and> postProcessContent cs ! k = (cs ! k)\<lparr> type := bullet \<rparr>)"
  using postProcessContent_spec(2)[OF assms] reclassify_cases by metis

section \<open>Termination and coverage\<close>

lemma lineItem_item:
  assumes "lineItem rt ls i c ab b = (item, c')"
  shows "lines item = None" and "type item \<noteq> code_block"
  using assms
  by (rule_tac lineItem_cases[of ls i rt c ab b];
      auto simp: textItem_def numberedItem_def isHeading_def dest: getHeadingLevel_heading)+

lemma step_bound:
  assumes "idx st < length ls"
  shows "idx (step rt ls st) \<le> length ls"
  using assms
proof (cases rule: step_cases[of st ls rt])
  case (code codeLines j codeProb)
  then show ?thesis using codeBlockAt_Some(2)[OF code(1) assms] by simp
next
  case (line b item counter)
  then show ?thesis using assms by simp
qed

lemma step_length:
  assumes "idx st < length ls"
  shows "length (content (step rt ls st)) = length (content st) + 1"
  using assms by (cases rule: step_cases[of st ls rt]) simp_all

lemma step_span:
  assumes "idx st < length ls" and "sum_list (map span (content st)) = idx st"
  shows "sum_list (map span (content (step rt ls st))) = idx (step rt ls st)"
  using assms(1)
proof (cases rule: step_cases[of st ls rt])
  case (code codeLines j codeProb)
  have "length codeLines = j - idx st"
    using codeBlockAt_Some(2,3)[OF code(1) assms(1)] by simp
  moreover have "idx st < j" using codeBlockAt_Some(1)[OF code(1) assms(1)] .
  ultimately show ?thesis using code assms(2) by (simp add: span_def codeItem_def)
next
  case (line b item counter)
  then show ?thesis using assms(2) lineItem_item(1)[OF line(2)] by (simp add: span_def)
qed

lemma loop_rounds:
  assumes "idx st \<le> length ls"
  shows "\<exists>n. n \<le> length ls - idx st \<and> extract_loop rt ls st = (step rt ls ^^ n) st
           \<and> idx ((step rt ls ^^ n) st) = length ls"
  using assms
proof (induction rt ls st rule: extract_loop.induct)
  case (1 rt ls st)
  show ?case
  proof (cases "idx st < length ls")
    case False
    then have "extract_loop rt ls st = st" by (subst extract_loop.simps) simp
    then show ?thesis using False "1.prems" by (intro exI[of _ 0]) simp
  next
    case True
    have lt: "idx st < idx (step rt ls st)" by (rule step_cursor)
    have le: "idx (step rt ls st) \<le> length ls" using True by (rule step_bound)
    obtain n where n: "n \<le> length ls - idx (step rt ls st)"
        "extract_loop rt ls (step rt ls st) = (step rt ls ^^ n) (step rt ls st)"
        "idx ((step rt ls ^^ n) (step rt ls st)) = length ls"
      using "1.IH"[OF True le] by blast
    have eq: "extract_loop rt ls st = extract_loop rt ls (step rt ls st)"
      using True by (subst extract_loop.simps) simp
    have pw: "(step rt ls ^^ Suc n) st = (step rt ls ^^ n) (step rt ls st)"
      by (simp add: funpow_swap1)
    show ?thesis
      using n lt le eq pw by (intro exI[of _ "Suc n"]) (simp del: funpow.simps)
  qed
qed

lemma span_reclassify: "span (reclassify prev x nxt) = span x"
  by (simp add: reclassify_def span_def)

lemma span_postProcessContent: "map span (postProcessContent cs) = map span cs"
  by (rule nth_equalityI)
    (simp_all add: postProcessContent_spec span_reclassify)

lemma loop_span: "sum_list (map span (content (extract_loop rt ls initial))) = length ls"
proof -
  let ?P = "\<lambda>s::scan. idx s \<le> length ls \<and> sum_list (map span (content s)) = idx s"
  have "?P (extract_loop rt ls initial)"
  proof (rule extract_loop_invariant)
    show "?P initial" by (simp add: initial_def)
  next
    fix s :: scan assume "?P s" and "idx s < length ls"
    then show "?P (step rt ls s)" using step_bound step_span by blast
  qed
  moreover have "length ls \<le> idx (extract_loop rt ls initial)" by (rule extract_loop_done)
  ultimately show ?thesis by simp
qed

text \<open>
  C9. The scan is a total function. In every round with the cursor inside the lines the
  cursor moves forward by at least one line, stays within the lines, and one item is
  pushed; the loop from the initial state is a number of such rounds that is at most
  the number of lines, and ends with the cursor at the end; and the items of the result
  stand for as many lines as the input has, so every line has gone into an item.
\<close>

theorem scan_total:
  "(\<forall>st. idx st < length ls \<longrightarrow>
       idx st < idx (step rt ls st) \<and> idx (step rt ls st) \<le> length ls
       \<and> length (content (step rt ls st)) = length (content st) + 1)
   \<and> (\<exists>n. n \<le> length ls \<and> extract_loop rt ls initial = (step rt ls ^^ n) initial
          \<and> idx ((step rt ls ^^ n) initial) = length ls)
   \<and> sum_list (map span (extractContent rt raw)) = length (nonEmptyLines raw)"
proof (intro conjI allI impI)
  fix st :: scan assume "idx st < length ls"
  then show "idx (step rt ls st) \<le> length ls"
    and "length (content (step rt ls st)) = length (content st) + 1"
    by (rule step_bound, rule step_length)
  show "idx st < idx (step rt ls st)" by (rule step_cursor)
next
  show "\<exists>n. n \<le> length ls \<and> extract_loop rt ls initial = (step rt ls ^^ n) initial
          \<and> idx ((step rt ls ^^ n) initial) = length ls"
    using loop_rounds[of initial ls rt] by (auto simp: initial_def)
next
  show "sum_list (map span (extractContent rt raw)) = length (nonEmptyLines raw)"
    by (simp add: extractContent_def span_postProcessContent loop_span)
qed

section \<open>Sub-bullets\<close>

lemma type_reclassify_bullet:
  "type x = bullet \<Longrightarrow> type (reclassify prev x nxt) = bullet"
  by (simp add: reclassify_def)

lemma type_reclassify_sub:
  "type (reclassify prev x nxt) = sub_bullet \<Longrightarrow> type x = sub_bullet"
  by (simp add: reclassify_def split: if_splits)

lemma subBullets_step:
  assumes "subBulletsFollowBullets (content st)" and "idx st < length ls"
  shows "subBulletsFollowBullets (content (step rt ls st))"
proof -
  have snoc: "subBulletsFollowBullets (content st @ [x])"
    if "type x = sub_bullet \<Longrightarrow> afterBullet (content st)" for x
    unfolding subBulletsFollowBullets_def
  proof (intro allI impI)
    fix k assume k: "k < length (content st @ [x])" and t: "type ((content st @ [x]) ! k) = sub_bullet"
    show "0 < k \<and> type ((content st @ [x]) ! (k - 1)) = bullet"
    proof (cases "k < length (content st)")
      case True
      then show ?thesis using assms(1) t
        by (auto simp: subBulletsFollowBullets_def nth_append)
    next
      case False
      then have "k = length (content st)" using k by simp
      moreover have "afterBullet (content st)" using that t \<open>k = length (content st)\<close> by simp
      ultimately show ?thesis
        by (auto simp: afterBullet_def nth_append last_conv_nth)
    qed
  qed
  show ?thesis
    using assms(2)
  proof (cases rule: step_cases[of st ls rt])
    case (code codeLines j codeProb)
    then show ?thesis using snoc[of "codeItem codeLines codeProb"] by (simp add: codeItem_def)
  next
    case (line b item counter)
    have "type item = sub_bullet \<Longrightarrow> afterBullet (content st)"
      by (rule lineItem_cases[of ls "idx st" rt "numberedListCounter st" "afterBullet (content st)" b])
         (use line(2) in \<open>auto simp: textItem_def numberedItem_def isHeading_def
            dest: getHeadingLevel_heading\<close>)
    then show ?thesis using line snoc[of item] by simp
  qed
qed

text \<open>
  C8. In the result of \<open>extractContent\<close>, after post-processing, every sub-bullet has an
  item before it, and that item is a bullet.
\<close>

theorem sub_bullet_follows_bullet:
  assumes "k < length (extractContent rt raw)"
    and "type (extractContent rt raw ! k) = sub_bullet"
  shows "0 < k \<and> type (extractContent rt raw ! (k - 1)) = bullet"
proof -
  let ?ls = "nonEmptyLines raw"
  let ?cs = "content (extract_loop rt ?ls initial)"
  have inv: "subBulletsFollowBullets ?cs"
  proof (rule extract_loop_invariant[where P = "\<lambda>s. subBulletsFollowBullets (content s)"])
    show "subBulletsFollowBullets (content initial)"
      by (simp add: subBulletsFollowBullets_def initial_def)
  next
    fix s :: scan assume "subBulletsFollowBullets (content s)" and "idx s < length ?ls"
    then show "subBulletsFollowBullets (content (step rt ?ls s))" by (rule subBullets_step)
  qed
  have out: "extractContent rt raw = postProcessContent ?cs" by (simp add: extractContent_def)
  have k: "k < length ?cs" using assms(1) out by (simp add: postProcessContent_spec)
  have "type (?cs ! k) = sub_bullet"
    using assms(2) out postProcessContent_spec(2)[OF k] type_reclassify_sub by metis
  then have pre: "0 < k" "type (?cs ! (k - 1)) = bullet"
    using inv k by (auto simp: subBulletsFollowBullets_def)
  have "k - 1 < length ?cs" using k by simp
  then have "type (postProcessContent ?cs ! (k - 1)) = bullet"
    using postProcessContent_spec(2)[of "k - 1" ?cs] pre(2) type_reclassify_bullet by metis
  then show ?thesis using pre(1) out by simp
qed

section \<open>Code blocks\<close>

lemma committed_step:
  assumes "\<forall>x \<in> set (content st). type x = code_block \<longrightarrow> committed ls x"
    and "idx st < length ls"
  shows "\<forall>x \<in> set (content (step rt ls st)). type x = code_block \<longrightarrow> committed ls x"
  using assms(2)
proof (cases rule: step_cases[of st ls rt])
  case (code codeLines j codeProb)
  note facts = codeBlockAt_Some[OF code(1) assms(2)]
  have ne: "codeLines \<noteq> []" using facts(1,2,3) by simp
  have "hd codeLines = ls ! idx st"
    using facts(1,3) assms(2) by (simp add: hd_drop_conv_nth)
  then have "committed ls (codeItem codeLines codeProb)"
    unfolding committed_def using ne facts(4,5) assms(2)
    by (intro exI[of _ "idx st"] exI[of _ codeLines]) (simp add: codeItem_def)
  then show ?thesis using code assms(1) by auto
next
  case (line b item counter)
  then show ?thesis using assms(1) lineItem_item(2)[OF line(2)] by auto
qed

lemma code_block_kept:
  assumes "x \<in> set (postProcessContent cs)" and "type x = code_block"
  shows "x \<in> set cs"
proof -
  obtain k where k: "k < length cs" "x = postProcessContent cs ! k"
    using assms(1) by (auto simp: in_set_conv_nth postProcessContent_spec)
  have "postProcessContent cs ! k = cs ! k" using postProcessContent_cases[OF k(1)] k(2) assms(2) by auto
  then show ?thesis using k by simp
qed

lemma committed_content:
  "\<forall>x \<in> set (content (extract_loop rt ls initial)). type x = code_block \<longrightarrow> committed ls x"
proof (rule extract_loop_invariant[where
      P = "\<lambda>s. \<forall>x \<in> set (content s). type x = code_block \<longrightarrow> committed ls x"])
  show "\<forall>x \<in> set (content initial). type x = code_block \<longrightarrow> committed ls x"
    by (simp add: initial_def)
next
  fix s :: scan
  assume "\<forall>x \<in> set (content s). type x = code_block \<longrightarrow> committed ls x" and "idx s < length ls"
  then show "\<forall>x \<in> set (content (step rt ls s)). type x = code_block \<longrightarrow> committed ls x"
    by (rule committed_step)
qed

text \<open>
  C5. Every code block of the result was committed by the code block rule at a line of
  the input: it has at least one line, and it has two lines or more unless the score of
  its opening line is 80 or more. Where the rule does not commit at the cursor, the
  round pushes the item that the rules below it find for the line.
\<close>

theorem code_block_minimality:
  "(\<forall>x \<in> set (extractContent rt raw). type x = code_block \<longrightarrow> committed (nonEmptyLines raw) x)
   \<and> (\<forall>ls st. idx st < length ls \<and> codeBlockAt ls (idx st) = None \<longrightarrow>
         (\<exists>b. content (step rt ls st)
            = content st @ [fst (lineItem rt ls (idx st) (numberedListCounter st)
                                   (afterBullet (content st)) b)]))"
proof (intro conjI ballI allI impI)
  fix x assume "x \<in> set (extractContent rt raw)" and "type x = code_block"
  then have "x \<in> set (content (extract_loop rt (nonEmptyLines raw) initial))"
    using code_block_kept by (simp add: extractContent_def)
  then show "committed (nonEmptyLines raw) x"
    using committed_content \<open>type x = code_block\<close> by blast
next
  fix ls and st :: scan
  assume a: "idx st < length ls \<and> codeBlockAt ls (idx st) = None"
  then have "idx st < length ls" by simp
  then show "\<exists>b. content (step rt ls st)
            = content st @ [fst (lineItem rt ls (idx st) (numberedListCounter st)
                                   (afterBullet (content st)) b)]"
  proof (cases rule: step_cases[of st ls rt])
    case (code codeLines j codeProb)
    then show ?thesis using a by simp
  next
    case (line b item counter)
    then show ?thesis by (intro exI[of _ b]) simp
  qed
qed

section \<open>Numbered runs\<close>

lemma numberingOk_snoc:
  "numberingOk c (xs @ [x])
     = (numberingOk c xs
        \<and> (if type x = numbered
            then number x = Some 1 \<or> number x = Some (foldl counterAfter c xs + 1) else True))"
  by (induction xs arbitrary: c) auto

lemma numberedAt_number:
  "numberedAt text c = Some (num, rest) \<Longrightarrow> num = 1 \<or> num = c + 1"
  by (auto simp: numberedAt_def Let_def split: option.splits if_splits)

lemma numbering_step:
  assumes "numbering st" and "idx st < length ls"
  shows "numbering (step rt ls st)"
  using assms(2)
proof (cases rule: step_cases[of st ls rt])
  case (code codeLines j codeProb)
  then show ?thesis using assms(1)
    by (simp add: numbering_def numberingOk_snoc counterAfter_def codeItem_def)
next
  case (line b item counter)
  have "(if type item = numbered
         then number item = Some 1 \<or> number item = Some (numberedListCounter st + 1) else True)
        \<and> counter = counterAfter (numberedListCounter st) item"
    by (rule lineItem_cases[of ls "idx st" rt "numberedListCounter st" "afterBullet (content st)" b])
       (use line(2) in \<open>auto simp: textItem_def numberedItem_def isHeading_def counterAfter_def
          dest: getHeadingLevel_heading numberedAt_number\<close>)
  then show ?thesis using line assms(1)
    by (auto simp: numbering_def numberingOk_snoc split: if_splits)
qed

lemma step_counter:
  assumes "idx st < length ls"
  shows "\<exists>x. content (step rt ls st) = content st @ [x]
    \<and> numberedListCounter (step rt ls st) = counterAfter (numberedListCounter st) x
    \<and> (if type x = numbered
        then number x = Some 1 \<or> number x = Some (numberedListCounter st + 1) else True)"
  using assms
proof (cases rule: step_cases[of st ls rt])
  case (code codeLines j codeProb)
  then show ?thesis by (simp add: counterAfter_def codeItem_def)
next
  case (line b item counter)
  have "(if type item = numbered
         then number item = Some 1 \<or> number item = Some (numberedListCounter st + 1) else True)
        \<and> counter = counterAfter (numberedListCounter st) item"
    by (rule lineItem_cases[of ls "idx st" rt "numberedListCounter st" "afterBullet (content st)" b])
       (use line(2) in \<open>auto simp: textItem_def numberedItem_def isHeading_def counterAfter_def
          dest: getHeadingLevel_heading numberedAt_number\<close>)
  then have "content (step rt ls st) = content st @ [item]
    \<and> numberedListCounter (step rt ls st) = counterAfter (numberedListCounter st) item
    \<and> (if type item = numbered
        then number item = Some 1 \<or> number item = Some (numberedListCounter st + 1) else True)"
    using line by (auto split: if_splits)
  then show ?thesis by (rule exI)
qed

lemma numbering_scanned: "numbering (extract_loop rt (nonEmptyLines raw) initial)"
proof (rule extract_loop_invariant)
  show "numbering initial" by (simp add: numbering_def initial_def)
next
  fix s :: scan assume "numbering s" and "idx s < length (nonEmptyLines raw)"
  then show "numbering (step rt (nonEmptyLines raw) s)" by (rule numbering_step)
qed

text \<open>
  C2, as amended. Every round of the scan pushes one item and updates its counter by
  that item: a numbered item sets it to its number, a bullet or a sub-bullet keeps it,
  a heading, a paragraph or a code block resets it to 0; and a numbered item carries
  either 1 or the counter before the round plus one. So among the items of the scan
  every numbered item carries 1 or one more than the counter read from the items before
  it, and the counter at the end is the one read from all items. The result is the
  items of the scan with some paragraphs turned into bullets by the post-processing
  pass: the numbered items and their numbers are the same, and a bullet of the result
  that was a paragraph of the scan did reset the counter.
\<close>

theorem numbering_of_scan:
  "(\<forall>st. idx st < length ls \<longrightarrow>
      (\<exists>x. content (step rt ls st) = content st @ [x]
         \<and> numberedListCounter (step rt ls st) = counterAfter (numberedListCounter st) x
         \<and> (if type x = numbered
             then number x = Some 1 \<or> number x = Some (numberedListCounter st + 1) else True)))
   \<and> numberingOk 0 (scanned rt raw)
   \<and> numberedListCounter (extract_loop rt (nonEmptyLines raw) initial)
       = foldl counterAfter 0 (scanned rt raw)
   \<and> extractContent rt raw = postProcessContent (scanned rt raw)
   \<and> length (extractContent rt raw) = length (scanned rt raw)
   \<and> (\<forall>k < length (scanned rt raw).
         extractContent rt raw ! k = scanned rt raw ! k
         \<or> (type (scanned rt raw ! k) = paragraph_item
            \<and> extractContent rt raw ! k = (scanned rt raw ! k)\<lparr> type := bullet \<rparr>))"
proof (intro conjI allI impI)
  fix st :: scan assume "idx st < length ls"
  then show "\<exists>x. content (step rt ls st) = content st @ [x]
         \<and> numberedListCounter (step rt ls st) = counterAfter (numberedListCounter st) x
         \<and> (if type x = numbered
             then number x = Some 1 \<or> number x = Some (numberedListCounter st + 1) else True)"
    by (rule step_counter)
next
  show "numberingOk 0 (scanned rt raw)"
    using numbering_scanned by (simp add: numbering_def scanned_def)
  show "numberedListCounter (extract_loop rt (nonEmptyLines raw) initial)
       = foldl counterAfter 0 (scanned rt raw)"
    using numbering_scanned by (simp add: numbering_def scanned_def)
  show out: "extractContent rt raw = postProcessContent (scanned rt raw)"
    by (simp add: extractContent_def scanned_def)
  show "length (extractContent rt raw) = length (scanned rt raw)"
    by (simp add: out postProcessContent_spec)
next
  fix k assume "k < length (scanned rt raw)"
  then show "extractContent rt raw ! k = scanned rt raw ! k
         \<or> (type (scanned rt raw ! k) = paragraph_item
            \<and> extractContent rt raw ! k = (scanned rt raw ! k)\<lparr> type := bullet \<rparr>)"
    using postProcessContent_cases by (simp add: extractContent_def scanned_def)
qed

section \<open>The post-processing pass\<close>

lemma item_text_reclassify: "item_text (reclassify prev x nxt) = item_text x"
  by (simp add: reclassify_def)

lemma introText_prevOf:
  assumes "k < length cs"
  shows "introText (prevOf (postProcessContent cs) k) = introText (prevOf cs k)"
proof (cases "0 < k")
  case False
  then show ?thesis by (simp add: prevOf_def)
next
  case True
  then have "k - 1 < length cs" using assms by simp
  then have "item_text (postProcessContent cs ! (k - 1)) = item_text (cs ! (k - 1))"
    using postProcessContent_spec(2)[of "k - 1" cs] item_text_reclassify by simp
  then show ?thesis using True by (simp add: prevOf_def introText_def)
qed

text \<open>
  C7, as amended. The pass keeps the number and the order of the items. It turns an
  item into a bullet exactly when the item is a paragraph whose text is not empty and
  shorter than 100 code units, and (a) the item before it in the input of the pass has
  a text that matches a list introduction pattern, or (b) the item pushed before it is a
  bullet and the item behind it in the input of the pass is a bullet. Every other item,
  a heading and a code block among them, is pushed as it is. The pass reads the input
  once from left to right and is applied once.
\<close>

theorem post_processing_pass:
  "length (postProcessContent cs) = length cs
   \<and> (\<forall>k < length cs.
        postProcessContent cs ! k
          = (if shortParagraph (cs ! k)
                \<and> (introText (prevOf cs k)
                    \<or> (map_option type (prevOf (postProcessContent cs) k) = Some bullet
                        \<and> map_option type (nextOf cs k) = Some bullet))
             then (cs ! k)\<lparr> type := bullet \<rparr>
             else cs ! k))"
proof (intro conjI allI impI)
  show "length (postProcessContent cs) = length cs" by (rule postProcessContent_spec(1))
next
  fix k assume k: "k < length cs"
  show "postProcessContent cs ! k
          = (if shortParagraph (cs ! k)
                \<and> (introText (prevOf cs k)
                    \<or> (map_option type (prevOf (postProcessContent cs) k) = Some bullet
                        \<and> map_option type (nextOf cs k) = Some bullet))
             then (cs ! k)\<lparr> type := bullet \<rparr>
             else cs ! k)"
    using postProcessContent_spec(2)[OF k] introText_prevOf[OF k]
    by (simp add: reclassify_def)
qed

section \<open>The range of the scores\<close>

lemma foldl_bonus_ge:
  "0 \<le> k \<Longrightarrow> a \<le> foldl (\<lambda>score p. if Q p then score + k else score) (a::int) ps"
proof (induction ps arbitrary: a)
  case Nil
  then show ?case by simp
next
  case (Cons p ps)
  have "a \<le> (if Q p then a + k else a)" using Cons.prems by simp
  also have "\<dots> \<le> foldl (\<lambda>score p. if Q p then score + k else score) (if Q p then a + k else a) ps"
    using Cons.prems by (rule Cons.IH)
  finally show ?case by simp
qed

lemma keywordLoop_range:
  "(case keywordLoop rt trimmed kws score of
      Inl r \<Rightarrow> r = 90 \<or> r = 85
    | Inr s \<Rightarrow> score \<le> s)"
proof (induction kws arbitrary: score)
  case Nil
  then show ?case by simp
next
  case (Cons keyword rest)
  let ?s = "(if startsWith trimmed (keyword @ str '' '') then score + 20 else score)
              + (if includes_str (toLowerCase rt trimmed) (toLowerCase rt keyword) then 10 else 0)"
  have "score \<le> ?s" by simp
  then show ?case using Cons.IH[of ?s]
    by (auto split: sum.splits)
qed

lemma headerTail_range:
  "headerTail rt trimmed prevText nextText score \<le> 100"
  "- 30 \<le> score \<Longrightarrow> - 45 \<le> headerTail rt trimmed prevText nextText score"
proof -
  define a :: int where "a = (if titleCase trimmed then 15 else 0)"
  define b :: int where
    "b = (if \<not> endsWith trimmed (str ''.'') \<and> \<not> endsWith trimmed (str '','') then 10 else 0)"
  define c :: int where "c = (if endsWith trimmed (str ''.'') then 15 else 0)"
  define d :: int where "d = (if isBlank prevText then 10 else 0)"
  define e :: int where "e = (case nextText of None \<Rightarrow> 0
          | Some n \<Rightarrow> if n \<noteq> [] \<and> length n > length trimmed * 2 then 10 else 0)"
  define f :: int where "f = (if test re_label trimmed \<and> length trimmed < 60 then 20 else 0)"
  define g :: int where
    "g = (if trimmed = toUpperCase rt trimmed \<and> length trimmed > 3 \<and> length trimmed < 50
          then 15 else 0)"
  have eq: "headerTail rt trimmed prevText nextText score = min (score + a + b - c + d + e + f + g) 100"
    unfolding headerTail_def a_def b_def c_def d_def e_def f_def g_def by (rule refl)
  have "0 \<le> a" "0 \<le> b" "c \<le> 15" "0 \<le> d" "0 \<le> e" "0 \<le> f" "0 \<le> g"
    by (simp_all add: a_def b_def c_def d_def e_def f_def g_def split: option.splits)
  then show "headerTail rt trimmed prevText nextText score \<le> 100"
    and "- 30 \<le> score \<Longrightarrow> - 45 \<le> headerTail rt trimmed prevText nextText score"
    unfolding eq by simp_all
qed

text \<open>
  C6, as amended. Each analyzer returns an integer of at most 100. The code score is
  never negative. The header score and the bullet score have no lower clamp: they are
  at least -45 and -20, and can be negative.
\<close>

theorem analyzer_ranges:
  "- 45 \<le> analyzeHeaderProbability rt text prevText nextText
   \<and> analyzeHeaderProbability rt text prevText nextText \<le> 100
   \<and> 0 \<le> analyzeCodeProbability text ctx
   \<and> analyzeCodeProbability text ctx \<le> 100
   \<and> - 20 \<le> analyzeBulletProbability text prevText isAfterListIntro
   \<and> analyzeBulletProbability text prevText isAfterListIntro \<le> 100"
proof -
  define trimmed where "trimmed = trim text"
  define score :: int where "score = (if length trimmed < 80 then 15 else 0)
                + (if length trimmed < 50 then 10 else 0)
                - (if length trimmed > 150 then 30 else 0)"
  have s: "- 30 \<le> score" by (simp add: score_def)
  have kw: "(case keywordLoop rt trimmed HEADER_KEYWORDS score of
      Inl r \<Rightarrow> r = 90 \<or> r = 85 | Inr s \<Rightarrow> score \<le> s)"
    by (rule keywordLoop_range)
  have header: "- 45 \<le> analyzeHeaderProbability rt text prevText nextText
      \<and> analyzeHeaderProbability rt text prevText nextText \<le> 100"
  proof (cases "keywordLoop rt trimmed HEADER_KEYWORDS score")
    case (Inl r)
    then show ?thesis using kw
      unfolding analyzeHeaderProbability_def Let_def trimmed_def[symmetric] score_def[symmetric]
      by auto
  next
    case (Inr s')
    then have "- 30 \<le> s'" using kw s by simp
    then show ?thesis
      using Inr headerTail_range(1)[of rt trimmed prevText nextText s']
        headerTail_range(2)[of s' rt trimmed prevText nextText]
      unfolding analyzeHeaderProbability_def Let_def trimmed_def[symmetric] score_def[symmetric]
      by auto
  qed
  have code: "0 \<le> analyzeCodeProbability text ctx \<and> analyzeCodeProbability text ctx \<le> 100"
  proof -
    define a :: int where
      "a = foldl (\<lambda>score pattern. if test pattern (trim text) then score + 30 else score) 0 CODE_PATTERNS"
    define b :: int where
      "b = (if startsWith text (str ''    '') \<or> startsWith text [9] then 20 else 0)"
    define c :: int where "c = (if test re_codeChars (trim text) then 15 else 0)"
    define d :: int where "d = (if test re_methodCall (trim text) then 15 else 0)"
    define e :: int where "e = (if test re_stringAssign (trim text) then 10 else 0)"
    define f :: int where "f = (if test re_numberAssign (trim text) then 10 else 0)"
    define g :: int where "g = (if test re_salesforce (trim text) then 25 else 0)"
    define h :: int where
      "h = (if length (trim text) < 30 \<and> test re_fragment (trim text) then 15 else 0)"
    define k :: int where "k = (if length (filter codeLike ctx) \<ge> 2 then 20 else 0)"
    have eq: "analyzeCodeProbability text ctx = min (a + b + c + d + e + f + g + h + k) 100"
      unfolding analyzeCodeProbability_def Let_def a_def b_def c_def d_def e_def f_def g_def
        h_def k_def by (rule refl)
    have "0 \<le> a" unfolding a_def by (rule foldl_bonus_ge) simp
    moreover have "0 \<le> b" "0 \<le> c" "0 \<le> d" "0 \<le> e" "0 \<le> f" "0 \<le> g" "0 \<le> h" "0 \<le> k"
      by (simp_all add: b_def c_def d_def e_def f_def g_def h_def k_def)
    ultimately show ?thesis unfolding eq by simp
  qed
  have bullet: "- 20 \<le> analyzeBulletProbability text prevText isAfterListIntro
      \<and> analyzeBulletProbability text prevText isAfterListIntro \<le> 100"
  proof -
    define a :: int where "a = (if isAfterListIntro then 40 else 0)"
    define b :: int where
      "b = (if length (trim text) < 100 \<and> length (trim text) > 10 then 10 else 0)"
    define c :: int where
      "c = foldl (\<lambda>score pattern. if test pattern (trim text) then score + 15 else score) 0
             BULLET_CONTENT_PATTERNS"
    define d :: int where
      "d = (if test re_bodyStart (trim text) \<and> length (trim text) > 80 then 20 else 0)"
    define e :: int where "e = (case prevText of None \<Rightarrow> 0
              | Some p \<Rightarrow> if p \<noteq> [] \<and> length p < 100 \<and> length (trim text) < 100 then 10 else 0)"
    define f :: int where
      "f = (if \<not> endsWith (trim text) (str ''.'') \<and> length (trim text) > 20 then 5 else 0)"
    have eq: "analyzeBulletProbability text prevText isAfterListIntro
        = (if test re_bulletMarker (trim text) then 95 else min (a + b + c - d + e + f) 100)"
      unfolding analyzeBulletProbability_def Let_def a_def b_def c_def d_def e_def f_def
      by (rule refl)
    have "0 \<le> c" unfolding c_def by (rule foldl_bonus_ge) simp
    moreover have "0 \<le> a" "0 \<le> b" "d \<le> 20" "0 \<le> e" "0 \<le> f"
      by (simp_all add: a_def b_def d_def e_def f_def split: option.splits)
    ultimately show ?thesis unfolding eq by simp
  qed
  show ?thesis using header code bullet by simp
qed

section \<open>Runs of a class\<close>

lemma inClass_plain [simp]: "inClass P False c = P c"
  by (simp add: inClass_def)

lemma many_head: "\<exists>rest. many P False p s acc = run P (p, s) # rest"
proof (induction s arbitrary: p acc)
  case Nil
  then show ?case by (simp add: run_def endPrev_def)
next
  case (Cons c cs)
  show ?case
  proof (cases "P c")
    case True
    obtain rest where "many P False (Some c) cs ((p, c # cs) # acc) = run P (Some c, cs) # rest"
      using Cons.IH by blast
    moreover have "run P (Some c, cs) = run P (p, c # cs)"
      using True by (simp add: run_def endPrev_def)
    ultimately show ?thesis using True by simp
  next
    case False
    then show ?thesis by (simp add: run_def endPrev_def)
  qed
qed

lemma many_then:
  assumes "\<forall>x \<in> set acc. k x = []" and "\<forall>q c cs. P c \<longrightarrow> k (q, c # cs) = []"
  shows "concat (map k (many P False p s acc)) = k (run P (p, s))"
  using assms(1)
proof (induction s arbitrary: p acc)
  case Nil
  then show ?case by (simp add: run_def endPrev_def)
next
  case (Cons c cs)
  show ?case
  proof (cases "P c")
    case True
    have "\<forall>x \<in> set ((p, c # cs) # acc). k x = []" using Cons.prems assms(2) True by simp
    then have "concat (map k (many P False (Some c) cs ((p, c # cs) # acc))) = k (run P (Some c, cs))"
      by (rule Cons.IH)
    moreover have "run P (Some c, cs) = run P (p, c # cs)"
      using True by (simp add: run_def endPrev_def)
    ultimately show ?thesis using True by simp
  next
    case False
    then show ?thesis using Cons.prems by (simp add: run_def endPrev_def)
  qed
qed

lemma ends_Cls_then:
  "ends (Seq (Cls R) K) False x = (case chr R x of None \<Rightarrow> [] | Some y \<Rightarrow> ends K False y)"
  by (cases x) (simp add: chr_def split: list.splits)

lemma ends_Star_then:
  assumes "rejects K P"
  shows "ends (Seq (Star P) K) False x = ends K False (run P x)"
proof -
  have "concat (map (ends K False) (many P False (fst x) (snd x) [])) = ends K False (run P (fst x, snd x))"
    using assms by (intro many_then) (simp_all add: rejects_def)
  then show ?thesis by simp
qed

lemma ends_Plus_then:
  assumes "rejects K P"
  shows "ends (Seq (Plus P) K) False x = (case run1 P x of None \<Rightarrow> [] | Some y \<Rightarrow> ends K False y)"
proof (cases "snd x")
  case Nil
  then show ?thesis by (simp add: Plus_def run1_def)
next
  case (Cons c cs)
  show ?thesis
  proof (cases "P c")
    case False
    then show ?thesis using Cons by (simp add: Plus_def run1_def)
  next
    case True
    have "concat (map (ends K False) (many P False (Some c) cs [])) = ends K False (run P (Some c, cs))"
      using assms by (intro many_then) (simp_all add: rejects_def)
    moreover have "run P (Some c, cs) = run P x"
      using True Cons by (simp add: run_def endPrev_def)
    ultimately show ?thesis using True Cons by (simp add: Plus_def run1_def)
  qed
qed

lemma rejects_Cls: "(\<And>c. P c \<Longrightarrow> \<not> R c) \<Longrightarrow> rejects (Seq (Cls R) K) P"
  by (simp add: rejects_def)

lemma rejects_Plus: "(\<And>c. P c \<Longrightarrow> \<not> R c) \<Longrightarrow> rejects (Seq (Plus R) K) P"
  by (simp add: rejects_def Plus_def)

lemma ends_Bol_then:
  "ends (Seq Bol K) ci (None, s) = ends K ci (None, s)"
  "ends (Seq Bol K) ci (Some c, s) = []"
  by simp_all

text \<open>A pattern that cannot match behind the start of the input is tried once, at the start.\<close>

lemma search_anchored:
  assumes "\<And>c s. ends r ci (Some c, s) = []"
  shows "search r ci None s = (ends r ci (None, s) \<noteq> [])"
proof -
  have "search r ci (Some c) s = False" for c s
    by (induction s arbitrary: c) (simp_all add: assms)
  then show ?thesis by (cases s) simp_all
qed

section \<open>The numeric prefixes\<close>

lemma Lit_dot: "Lit CHR ''.'' = Cls isDot"
  by (simp add: Lit_def isDot_def fun_eq_iff)

lemma digit_not_dot: "isDigit c \<Longrightarrow> \<not> isDot c"
  by (simp add: isDigit_def isDot_def)

lemma digit_not_space: "isDigit c \<Longrightarrow> \<not> isSpace c"
  by (simp add: isDigit_def isSpace_def)

lemma space_not_upper: "isSpace c \<Longrightarrow> \<not> isUpperAZ c"
  by (auto simp: isUpperAZ_def isSpace_def)

lemma space_not_dot: "isSpace c \<Longrightarrow> \<not> isDot c"
  by (auto simp: isDot_def isSpace_def)

lemma ends_numPrefix:
  "ends (Seq (Plus isDigit) (Seq (Cls isDot) K)) False x
     = (case numPrefix x of None \<Rightarrow> [] | Some y \<Rightarrow> ends K False y)"
proof -
  have "rejects (Seq (Cls isDot) K) isDigit" by (rule rejects_Cls) (rule digit_not_dot)
  then have "ends (Seq (Plus isDigit) (Seq (Cls isDot) K)) False x
      = (case run1 isDigit x of None \<Rightarrow> [] | Some y \<Rightarrow> ends (Seq (Cls isDot) K) False y)"
    by (rule ends_Plus_then)
  also have "\<dots> = (case numPrefix x of None \<Rightarrow> [] | Some y \<Rightarrow> ends K False y)"
    by (cases "run1 isDigit x") (simp_all add: numPrefix_def ends_Cls_then del: ends.simps)
  finally show ?thesis .
qed

lemma ends_digits_space:
  "ends (Seq (Plus isDigit) (Seq (Cls isSpace) K)) False x
     = (case Option.bind (run1 isDigit x) (chr isSpace) of None \<Rightarrow> [] | Some y \<Rightarrow> ends K False y)"
proof -
  have "rejects (Seq (Cls isSpace) K) isDigit" by (rule rejects_Cls) (rule digit_not_space)
  then have "ends (Seq (Plus isDigit) (Seq (Cls isSpace) K)) False x
      = (case run1 isDigit x of None \<Rightarrow> [] | Some y \<Rightarrow> ends (Seq (Cls isSpace) K) False y)"
    by (rule ends_Plus_then)
  also have "\<dots> = (case Option.bind (run1 isDigit x) (chr isSpace) of
      None \<Rightarrow> [] | Some y \<Rightarrow> ends K False y)"
    by (cases "run1 isDigit x") (simp_all add: ends_Cls_then del: ends.simps)
  finally show ?thesis .
qed

lemma ends_spaces_upper:
  "ends (Seq (Plus isSpace) (Seq (Cls isUpperAZ) K)) False x
     = (case Option.bind (run1 isSpace x) (chr isUpperAZ) of None \<Rightarrow> [] | Some y \<Rightarrow> ends K False y)"
proof -
  have "rejects (Seq (Cls isUpperAZ) K) isSpace" by (rule rejects_Cls) (rule space_not_upper)
  then have "ends (Seq (Plus isSpace) (Seq (Cls isUpperAZ) K)) False x
      = (case run1 isSpace x of None \<Rightarrow> [] | Some y \<Rightarrow> ends (Seq (Cls isUpperAZ) K) False y)"
    by (rule ends_Plus_then)
  also have "\<dots> = (case Option.bind (run1 isSpace x) (chr isUpperAZ) of
      None \<Rightarrow> [] | Some y \<Rightarrow> ends K False y)"
    by (cases "run1 isSpace x") (simp_all add: ends_Cls_then del: ends.simps)
  finally show ?thesis .
qed

lemma ends_digits_spaces_upper:
  "ends (Seq (Plus isDigit) (Seq (Plus isSpace) (Seq (Cls isUpperAZ) K))) False x
     = (case Option.bind (Option.bind (run1 isDigit x) (run1 isSpace)) (chr isUpperAZ) of
          None \<Rightarrow> [] | Some y \<Rightarrow> ends K False y)"
proof -
  have "rejects (Seq (Plus isSpace) (Seq (Cls isUpperAZ) K)) isDigit"
    by (rule rejects_Plus) (rule digit_not_space)
  then have "ends (Seq (Plus isDigit) (Seq (Plus isSpace) (Seq (Cls isUpperAZ) K))) False x
      = (case run1 isDigit x of None \<Rightarrow> []
         | Some y \<Rightarrow> ends (Seq (Plus isSpace) (Seq (Cls isUpperAZ) K)) False y)"
    by (rule ends_Plus_then)
  also have "\<dots> = (case Option.bind (Option.bind (run1 isDigit x) (run1 isSpace)) (chr isUpperAZ) of
          None \<Rightarrow> [] | Some y \<Rightarrow> ends K False y)"
    by (cases "run1 isDigit x") (simp_all add: ends_spaces_upper del: ends.simps)
  finally show ?thesis .
qed

lemma test_anchored: "test (Seq Bol K, ci) s = (ends K ci (None, s) \<noteq> [])"
  unfolding test_def fst_conv snd_conv by (subst search_anchored) simp_all

lemmas prefix_rules = Seqs_def Lit_dot test_anchored ends_numPrefix ends_digits_space
  ends_spaces_upper ends_digits_spaces_upper ends_Cls_then

lemma test_level1: "test re_level1 s = (level1 s \<noteq> None)"
  by (simp add: re_level1_def level1_def prefix_rules del: ends.simps(6) split: option.splits)

lemma test_level2: "test re_level2 s = (level2 s \<noteq> None)"
  by (simp add: re_level2_def level2_def prefix_rules del: ends.simps(6) split: option.splits)

lemma test_level3: "test re_level3 s = (level3 s \<noteq> None)"
  by (simp add: re_level3_def level3_def prefix_rules del: ends.simps(6) split: option.splits)

lemma test_section1: "test re_section1 s = (section1 s \<noteq> None)"
  by (simp add: re_section1_def section1_def prefix_rules del: ends.simps(6) split: option.splits)

lemma test_section2: "test re_section2 s = (section2 s \<noteq> None)"
  by (simp add: re_section2_def section2_def prefix_rules del: ends.simps(6) split: option.splits)

lemma test_section3: "test re_section3 s = (section3 s \<noteq> None)"
  by (simp add: re_section3_def section3_def prefix_rules del: ends.simps(6) split: option.splits)

text \<open>A prefix followed by a capital is a prefix of the same depth, and of no other depth.\<close>

lemma run1_chr: "run1 R y = Some z \<Longrightarrow> \<exists>w. chr R y = Some w"
  by (auto simp: run1_def chr_def split: list.splits if_splits)

lemma chr_excludes:
  assumes "chr R y = Some w" and "\<And>c. P c \<Longrightarrow> \<not> R c"
  shows "run1 P y = None" and "chr P y = None"
  using assms by (auto simp: run1_def chr_def split: list.splits if_splits)

lemma section3_level:
  assumes "test re_section3 s"
  shows "test re_level3 s"
proof -
  obtain x1 x2 x3 x4 where x: "numPrefix (None, s) = Some x1" "numPrefix x1 = Some x2"
      "run1 isDigit x2 = Some x3" "run1 isSpace x3 = Some x4"
    using assms unfolding test_section3 section3_def
    by (auto simp: bind_eq_Some_conv)
  obtain w where "chr isSpace x3 = Some w" using run1_chr[OF x(4)] by blast
  then show ?thesis unfolding test_level3 level3_def using x by simp
qed

lemma section2_level:
  assumes "test re_section2 s"
  shows "test re_level2 s" and "\<not> test re_level3 s"
proof -
  obtain x1 x2 x3 where x: "numPrefix (None, s) = Some x1" "run1 isDigit x1 = Some x2"
      "run1 isSpace x2 = Some x3"
    using assms unfolding test_section2 section2_def
    by (auto simp: bind_eq_Some_conv)
  obtain w where w: "chr isSpace x2 = Some w" using run1_chr[OF x(3)] by blast
  then show "test re_level2 s" unfolding test_level2 level2_def using x by simp
  have "chr isDot x2 = None" using chr_excludes(2)[OF w, of isDot] by (simp add: isDot_def isSpace_def)
  then have "numPrefix x1 = None" using x(2) by (simp add: numPrefix_def)
  then show "\<not> test re_level3 s" unfolding test_level3 level3_def using x by simp
qed

lemma section1_level:
  assumes "test re_section1 s"
  shows "test re_level1 s" and "\<not> test re_level2 s" and "\<not> test re_level3 s"
proof -
  obtain x1 x2 where x: "numPrefix (None, s) = Some x1" "run1 isSpace x1 = Some x2"
    using assms unfolding test_section1 section1_def
    by (auto simp: bind_eq_Some_conv)
  obtain w where w: "chr isSpace x1 = Some w" using run1_chr[OF x(2)] by blast
  then show "test re_level1 s" unfolding test_level1 level1_def using x by simp
  have d: "run1 isDigit x1 = None" using chr_excludes(1)[OF w, of isDigit] digit_not_space by blast
  then show "\<not> test re_level2 s" unfolding test_level2 level2_def using x by simp
  have "numPrefix x1 = None" using d by (simp add: numPrefix_def)
  then show "\<not> test re_level3 s" unfolding test_level3 level3_def using x by simp
qed

lemma sectionLevel_getHeadingLevel:
  "sectionLevel (trim text) = Some lv \<Longrightarrow> getHeadingLevel text = Some lv"
  using section3_level section2_level section1_level
  by (auto simp: sectionLevel_def getHeadingLevel_def Let_def split: if_splits)

section \<open>The rules for headings and bullets\<close>

lemma lineItem_level:
  "getHeadingLevel (ls ! i) = Some lv \<Longrightarrow> lineItem rt ls i c ab b = (textItem lv (ls ! i) 95, 0)"
  by (simp add: lineItem_def Let_def)

text \<open>The marker match on a line whose rest does not consist of white space.\<close>

lemma take_run: "take (length s - length (dropWhile P s)) s = takeWhile P s"
proof -
  have "length s - length (dropWhile P s) = length (takeWhile P s)"
    by (metis add_diff_cancel_right' length_append takeWhile_dropWhile_id)
  then show ?thesis by (simp add: takeWhile_eq_take[symmetric])
qed

lemma space_of_terminator: "isLineTerminator c \<Longrightarrow> isSpace c"
  by (auto simp: isLineTerminator_def isSpace_def)

lemma markerMatch_rest:
  assumes "dropWhile isSpace r \<noteq> []"
  shows "markerMatch gs (g # r)
    = (if g \<in> set gs then Some (takeWhile notLineTerminator (dropWhile isSpace r)) else None)"
proof (cases "g \<in> set gs")
  case False
  then show ?thesis by (simp add: markerMatch_def Chars_def oneOf_def)
next
  case True
  define r' where "r' = dropWhile isSpace r"
  obtain c cs where r': "r' = c # cs" using assms by (cases r') (simp_all add: r'_def)
  have "\<not> isSpace c"
    using hd_dropWhile[of isSpace r] assms r' by (simp add: r'_def)
  then have c: "notLineTerminator c"
    using space_of_terminator by (auto simp: notLineTerminator_def)
  obtain q where y: "run isSpace (Some g, r) = (q, c # cs)"
    using r' by (simp add: run_def r'_def)
  obtain rest1 where s1: "ends (Star isSpace) False (Some g, r) = (q, c # cs) # rest1"
    using many_head[of isSpace "Some g" r "[]"] y by auto
  obtain rest2 where s2: "many notLineTerminator False (Some c) cs [] = run notLineTerminator (Some c, cs) # rest2"
    using many_head[of notLineTerminator "Some c" cs "[]"] by auto
  have s3: "ends (Plus notLineTerminator) False (q, c # cs) = run notLineTerminator (Some c, cs) # rest2"
    using c s2 by (simp add: Plus_def)
  have bt: "between (q, c # cs) (run notLineTerminator (Some c, cs)) = takeWhile notLineTerminator (c # cs)"
    using c take_run[of "c # cs" notLineTerminator] by (simp add: between_def run_def)
  have "markerMatch gs (g # r) = Some (takeWhile notLineTerminator (c # cs))"
    using True s1 s3 bt
    by (simp add: markerMatch_def Chars_def oneOf_def del: ends.simps(6,8))
  then show ?thesis using True r' by (simp add: r'_def)
qed

lemma numberedMatch_no_digit: "\<not> isDigit c \<Longrightarrow> numberedMatch (c # r) = None"
  by (simp add: numberedMatch_def Let_def Plus_def)

text \<open>The lines the scan reads are trimmed and not empty.\<close>

lemma trim_last: "trim s \<noteq> [] \<Longrightarrow> \<not> isSpace (last (trim s))"
proof -
  assume a: "trim s \<noteq> []"
  define t where "t = dropWhile isSpace (rev (dropWhile isSpace s))"
  have t: "t \<noteq> []" using a by (simp add: trim_def t_def)
  then have "\<not> isSpace (hd t)" unfolding t_def by (rule hd_dropWhile)
  moreover have "last (trim s) = hd t" using t by (simp add: trim_def t_def last_rev)
  ultimately show ?thesis by simp
qed

lemma nonEmptyLines_trimmed:
  assumes "i < length (nonEmptyLines raw)"
  shows "nonEmptyLines raw ! i \<noteq> []" and "\<not> isSpace (last (nonEmptyLines raw ! i))"
proof -
  have "nonEmptyLines raw ! i \<in> set (nonEmptyLines raw)" using assms by simp
  then obtain s where s: "nonEmptyLines raw ! i = trim s" "trim s \<noteq> []"
    by (auto simp: nonEmptyLines_def)
  show "nonEmptyLines raw ! i \<noteq> []" using s by simp
  show "\<not> isSpace (last (nonEmptyLines raw ! i))" using s trim_last by simp
qed


section \<open>Coverage of the input\<close>

subsection \<open>The marker match and the numbered match on a trimmed line\<close>

lemma stripped_rest:
  assumes "dropWhile isSpace r \<noteq> []"
  shows "stripped r \<noteq> []"
proof -
  have "\<not> isSpace (hd (dropWhile isSpace r))" using assms by (rule hd_dropWhile)
  then have "notLineTerminator (hd (dropWhile isSpace r))"
    using space_of_terminator by (auto simp: notLineTerminator_def)
  then show ?thesis using assms by (cases "dropWhile isSpace r") (simp_all add: stripped_def)
qed

lemma trimmed_rest:
  assumes "trimmedLine (pre @ r)" and "r \<noteq> []"
  shows "dropWhile isSpace r \<noteq> []"
proof -
  have "\<not> isSpace (last r)" using assms by (simp add: trimmedLine_def)
  then show ?thesis using assms(2) by (metis dropWhile_eq_Nil_conv last_in_set)
qed

lemma markerMatch_single: "markerMatch gs [g] = None"
  by (simp add: markerMatch_def Chars_def Plus_def)

lemma markerMatch_trimmed:
  assumes "trimmedLine l"
  shows "markerMatch gs l = markedLine gs l"
proof (cases l)
  case Nil
  then show ?thesis using assms by (simp add: trimmedLine_def)
next
  case (Cons g r)
  show ?thesis
  proof (cases "r = []")
    case True
    then show ?thesis using Cons by (simp add: markerMatch_single markedLine_def stripped_def)
  next
    case False
    have rest: "dropWhile isSpace r \<noteq> []"
      using trimmed_rest[of "[g]" r] assms Cons False by simp
    then show ?thesis
      using Cons markerMatch_rest[OF rest, of gs g] stripped_rest[OF rest]
      by (simp add: markedLine_def stripped_def)
  qed
qed

lemma bulletMatch_trimmed: "trimmedLine l \<Longrightarrow> bulletMatch l = markedLine [8226, 45, 42] l"
  by (simp add: bulletMatch_def markerMatch_trimmed markedLine_def split: list.splits)

lemma subBulletMatch_trimmed:
  "trimmedLine l \<Longrightarrow> subBulletMatch l = markedLine [9702, 8227, 8259, 8729, 45] l"
  by (simp add: subBulletMatch_def markerMatch_trimmed)

lemma numberedMatch_trimmed:
  assumes "trimmedLine l"
  shows "numberedMatch l = numberedLine l"
proof -
  define F where "F = (\<lambda>a c. map (\<lambda>d. (between (None, l) a, between c d))
                              (ends (Plus notLineTerminator) False c))"
  define K where "K = (\<lambda>a. concat (map (F a)
                              (ends (Seq (Chars (str ''.)'')) (Plus isSpace)) False a)))"
  have nm: "numberedMatch l
      = (case concat (map K (ends (Plus isDigit) False (None, l))) of [] \<Rightarrow> None | m # _ \<Rightarrow> Some m)"
    by (simp add: numberedMatch_def Let_def K_def F_def)
  have rej: "\<forall>q c cs. isDigit c \<longrightarrow> K (q, c # cs) = []"
    by (auto simp: K_def Chars_def oneOf_def str_def isDigit_def)
  obtain c0 cs where l: "l = c0 # cs"
    using assms by (cases l) (simp_all add: trimmedLine_def)
  show ?thesis
  proof (cases "isDigit c0")
    case False
    then show ?thesis using l by (simp add: numberedMatch_no_digit numberedLine_def)
  next
    case True
    define rest where "rest = dropWhile isDigit l"
    define q where "q = endPrev (Some c0) (takeWhile isDigit cs)"
    have "ends (Plus isDigit) False (None, l) = many isDigit False (Some c0) cs []"
      using True l by (simp add: Plus_def)
    moreover have "concat (map K (many isDigit False (Some c0) cs [])) = K (run isDigit (Some c0, cs))"
      using rej by (intro many_then) simp_all
    moreover have "run isDigit (Some c0, cs) = (q, rest)"
      using True l by (simp add: run_def rest_def q_def)
    ultimately have nm2: "numberedMatch l = (case K (q, rest) of [] \<Rightarrow> None | m # _ \<Rightarrow> Some m)"
      using nm by simp
    have digits: "takeWhile isDigit l \<noteq> []" using True l by simp
    have bt: "between (None, l) (q, rest) = takeWhile isDigit l"
      using take_run[of l isDigit] by (simp add: between_def rest_def)
    show ?thesis
    proof (cases rest)
      case Nil
      then have "K (q, rest) = []" by (simp add: K_def Chars_def)
      then show ?thesis using nm2 Nil by (simp add: numberedLine_def rest_def[symmetric])
    next
      case (Cons p r)
      show ?thesis
      proof (cases "(p = 46 \<or> p = 41) \<and> r \<noteq> [] \<and> isSpace (hd r)")
        case False
        then have "K (q, rest) = []"
          using Cons by (cases r) (auto simp: K_def Chars_def oneOf_def str_def Plus_def)
        then show ?thesis using nm2 Cons False by (auto simp: numberedLine_def rest_def[symmetric])
      next
        case ok: True
        then obtain s r' where r: "r = s # r'" "isSpace s" by (cases r) auto
        have "l = (takeWhile isDigit l @ [p]) @ r"
          using Cons takeWhile_dropWhile_id[of isDigit l] by (simp add: rest_def)
        then have "trimmedLine ((takeWhile isDigit l @ [p]) @ r)" using assms by simp
        then have rest2: "dropWhile isSpace r \<noteq> []"
          using ok by (intro trimmed_rest[of "takeWhile isDigit l @ [p]" r]) simp_all
        then obtain c cs2 where r'': "dropWhile isSpace r = c # cs2"
          by (cases "dropWhile isSpace r") simp_all
        have "\<not> isSpace c" using hd_dropWhile[OF rest2] r'' by simp
        then have c: "notLineTerminator c"
          using space_of_terminator by (auto simp: notLineTerminator_def)
        define q' where "q' = endPrev (Some s) (takeWhile isSpace r')"
        have y: "run isSpace (Some s, r') = (q', c # cs2)"
          using r r'' by (simp add: run_def q'_def)
        obtain rest1 where s1: "many isSpace False (Some s) r' [] = (q', c # cs2) # rest1"
          using many_head[of isSpace "Some s" r' "[]"] y by auto
        obtain rest3 where s2: "many notLineTerminator False (Some c) cs2 []
            = run notLineTerminator (Some c, cs2) # rest3"
          using many_head[of notLineTerminator "Some c" cs2 "[]"] by auto
        have s3: "ends (Plus notLineTerminator) False (q', c # cs2)
            = run notLineTerminator (Some c, cs2) # rest3"
          using c s2 by (simp add: Plus_def)
        have bt2: "between (q', c # cs2) (run notLineTerminator (Some c, cs2))
            = takeWhile notLineTerminator (c # cs2)"
          using c take_run[of "c # cs2" notLineTerminator] by (simp add: between_def run_def)
        have "ends (Seq (Chars (str ''.)'')) (Plus isSpace)) False (q, rest) = (q', c # cs2) # rest1"
          using ok Cons r s1 by (auto simp: Chars_def oneOf_def str_def Plus_def)
        then have "\<exists>tail. K (q, rest)
            = (takeWhile isDigit l, takeWhile notLineTerminator (c # cs2)) # tail"
          using s3 bt bt2 by (simp add: K_def F_def del: ends.simps)
        then have "numberedMatch l = Some (takeWhile isDigit l, stripped r)"
          using nm2 r'' by (auto simp: stripped_def)
        moreover have "numberedLine l = Some (takeWhile isDigit l, stripped r)"
          using ok Cons digits stripped_rest[OF rest2]
          by (simp add: numberedLine_def rest_def[symmetric])
        ultimately show ?thesis by simp
      qed
    qed
  qed
qed

subsection \<open>The segments of the scan\<close>

lemma numberedAt_line:
  assumes "trimmedLine l" and "numberedAt l c = Some (num, rest)"
  shows "\<exists>digits. numberedLine l = Some (digits, rest) \<and> num = parseInt digits"
  using assms(2) numberedMatch_trimmed[OF assms(1)]
  by (auto simp: numberedAt_def Let_def split: option.splits if_splits)

lemma covers_lineItem:
  assumes "lineItem rt ls i c ab b = (item, c')" and "trimmedLine (ls ! i)"
  shows "covers item [ls ! i]"
proof (rule lineItem_cases[of ls i rt c ab b])
  fix lv assume "getHeadingLevel (ls ! i) = Some lv"
    and "lineItem rt ls i c ab b = (textItem lv (ls ! i) 95, 0)"
  then show ?thesis using assms(1) getHeadingLevel_heading[of "ls ! i" lv]
    by (auto simp: covers_def textItem_def isHeading_def)
next
  fix lv p assume "isHeading lv" and "lineItem rt ls i c ab b = (textItem lv (ls ! i) p, 0)"
  then show ?thesis using assms(1) by (auto simp: covers_def textItem_def isHeading_def)
next
  fix num rest assume n: "numberedAt (ls ! i) c = Some (num, rest)"
    and "lineItem rt ls i c ab b = (numberedItem rest num, num)"
  then have "item = numberedItem rest num" using assms(1) by simp
  then show ?thesis using numberedAt_line[OF assms(2) n]
    by (auto simp: covers_def numberedItem_def)
next
  fix rest assume m: "bulletMatch (ls ! i) = Some rest"
    and "lineItem rt ls i c ab b = (textItem bullet rest 95, c)"
  then have "item = textItem bullet rest 95" using assms(1) by simp
  then show ?thesis using m bulletMatch_trimmed[OF assms(2)]
    by (simp add: covers_def textItem_def)
next
  fix rest assume m: "subBulletMatch (ls ! i) = Some rest"
    and "lineItem rt ls i c ab b = (textItem sub_bullet rest 90, c)"
  then have "item = textItem sub_bullet rest 90" using assms(1) by simp
  then show ?thesis using m subBulletMatch_trimmed[OF assms(2)]
    by (simp add: covers_def textItem_def)
next
  fix p assume "bulletMatch (ls ! i) = None"
    and "lineItem rt ls i c ab b = (textItem bullet (ls ! i) p, c)"
  then show ?thesis using assms(1) bulletMatch_trimmed[OF assms(2)]
    by (auto simp: covers_def textItem_def)
next
  fix p assume "bulletMatch (ls ! i) = None"
    and "lineItem rt ls i c ab b = (textItem paragraph_item (ls ! i) p, 0)"
  then show ?thesis using assms(1) bulletMatch_trimmed[OF assms(2)]
    by (auto simp: covers_def textItem_def)
qed

lemma covers_reclassify: "covers x seg \<Longrightarrow> covers (reclassify prev x nxt) seg"
  by (auto simp: reclassify_def covers_def shortParagraph_def split: list.splits option.splits)

lemma segmented_step:
  assumes "segmented Q ls st" and "idx st < length ls"
    and code: "\<And>codeLines codeProb. codeLines \<noteq> [] \<Longrightarrow> Q (codeItem codeLines codeProb) codeLines"
    and line: "\<And>b item c. lineItem rt ls (idx st) (numberedListCounter st)
                  (afterBullet (content st)) b = (item, c) \<Longrightarrow> Q item [ls ! idx st]"
  shows "segmented Q ls (step rt ls st)"
proof -
  obtain segs where segs: "concat segs = take (idx st) ls" "list_all2 Q (content st) segs"
    using assms(1) by (auto simp: segmented_def)
  show ?thesis
    using assms(2)
  proof (cases rule: step_cases[of st ls rt])
    case (code codeLines j codeProb)
    have j: "idx st < j" "j \<le> length ls" "codeLines = take (j - idx st) (drop (idx st) ls)"
      using codeBlockAt_Some(1,2,3)[OF code(1) assms(2)] by auto
    have "take j ls = take (idx st) ls @ take (j - idx st) (drop (idx st) ls)"
      using j(1) take_add[of "idx st" "j - idx st" ls] by simp
    then have "concat (segs @ [codeLines]) = take j ls" using segs(1) j(3) by simp
    moreover have "codeLines \<noteq> []" using j by simp
    then have "Q (codeItem codeLines codeProb) codeLines" by (rule assms(3))
    then have "list_all2 Q (content st @ [codeItem codeLines codeProb]) (segs @ [codeLines])"
      using segs(2) by (simp add: list_all2_appendI)
    ultimately have "\<exists>segs'. concat segs' = take j ls
        \<and> list_all2 Q (content st @ [codeItem codeLines codeProb]) segs'"
      by blast
    then show ?thesis using code j(2) unfolding segmented_def by simp
  next
    case (line b item counter)
    have "take (idx st + 1) ls = take (idx st) ls @ [ls ! idx st]"
      using assms(2) by (simp add: take_Suc_conv_app_nth)
    then have "concat (segs @ [[ls ! idx st]]) = take (idx st + 1) ls" using segs(1) by simp
    moreover have "list_all2 Q (content st @ [item]) (segs @ [[ls ! idx st]])"
      using segs(2) assms(4)[OF line(2)] by (simp add: list_all2_appendI)
    ultimately have "\<exists>segs'. concat segs' = take (idx st + 1) ls
        \<and> list_all2 Q (content st @ [item]) segs'"
      by blast
    then show ?thesis using line assms(2) unfolding segmented_def by simp
  qed
qed

text \<open>
  A relation that holds for what each rule pushes, and that the post-processing pass
  keeps, holds between the items of the result and consecutive segments of the lines.
\<close>

lemma segmented_result:
  assumes code: "\<And>codeLines codeProb. codeLines \<noteq> [] \<Longrightarrow> Q (codeItem codeLines codeProb) codeLines"
    and line: "\<And>i c ab b item c'. i < length (nonEmptyLines raw)
                  \<Longrightarrow> lineItem rt (nonEmptyLines raw) i c ab b = (item, c')
                  \<Longrightarrow> Q item [nonEmptyLines raw ! i]"
    and pass: "\<And>prev x nxt seg. Q x seg \<Longrightarrow> Q (reclassify prev x nxt) seg"
  shows "\<exists>segs. concat segs = nonEmptyLines raw \<and> list_all2 Q (extractContent rt raw) segs"
proof -
  let ?ls = "nonEmptyLines raw"
  let ?final = "extract_loop rt ?ls initial"
  have "segmented Q ?ls ?final"
  proof (rule extract_loop_invariant)
    show "segmented Q ?ls initial" by (simp add: segmented_def initial_def)
  next
    fix s :: scan assume "segmented Q ?ls s" and "idx s < length ?ls"
    then show "segmented Q ?ls (step rt ?ls s)"
      using code line by (intro segmented_step) blast+
  qed
  moreover have "length ?ls \<le> idx ?final" by (rule extract_loop_done)
  ultimately obtain segs where segs: "concat segs = ?ls" "list_all2 Q (content ?final) segs"
    by (auto simp: segmented_def)
  have len: "length (content ?final) = length segs" using segs(2) by (rule list_all2_lengthD)
  have "list_all2 Q (postProcessContent (content ?final)) segs"
  proof (rule list_all2_all_nthI)
    show "length (postProcessContent (content ?final)) = length segs"
      using len by (simp add: postProcessContent_spec)
  next
    fix k assume "k < length (postProcessContent (content ?final))"
    then have k: "k < length (content ?final)" by (simp add: postProcessContent_spec)
    then have "Q (content ?final ! k) (segs ! k)" using segs(2) by (simp add: list_all2_nthD)
    then show "Q (postProcessContent (content ?final) ! k) (segs ! k)"
      using postProcessContent_spec(2)[OF k] pass by simp
  qed
  then show ?thesis using segs(1) by (auto simp: extractContent_def)
qed

lemma nonEmptyLines_trimmedLine:
  "i < length (nonEmptyLines raw) \<Longrightarrow> trimmedLine (nonEmptyLines raw ! i)"
  using nonEmptyLines_trimmed[of i raw] by (simp add: trimmedLine_def)

text \<open>
  C1, as amended. The items of the result stand, in order, for consecutive segments of
  the lines that were read (the input lines trimmed, the empty ones dropped), and the
  segments together are these lines: no line is left out and none is taken twice. A code
  block holds the lines of its segment as they are. Every other item stands for one
  line. A heading, a paragraph and a bullet found by its score or made from a paragraph
  hold the line as it is. A bullet with a marker and a sub-bullet hold the line without
  the marker and the white space behind it, and only up to the first line terminator
  (CR, U+2028, U+2029) inside the line. A numbered item holds the number that the
  digits at the start of the line denote, and as its text the line without the digits,
  the full stop or bracket and the white space behind it, again only up to the first
  line terminator inside the line. So the lines come back from the items only up to the
  markers and numerals, and up to what stands behind a line terminator inside a line.
\<close>

theorem coverage_segments:
  "\<exists>segs. concat segs = nonEmptyLines raw \<and> list_all2 covers (extractContent rt raw) segs"
proof (rule segmented_result)
  fix codeLines :: "jsstring list" and codeProb :: int
  assume "codeLines \<noteq> []"
  then show "covers (codeItem codeLines codeProb) codeLines"
    by (simp add: covers_def codeItem_def)
next
  fix i c ab b item c'
  assume "i < length (nonEmptyLines raw)"
    and "lineItem rt (nonEmptyLines raw) i c ab b = (item, c')"
  then show "covers item [nonEmptyLines raw ! i]"
    using nonEmptyLines_trimmedLine by (intro covers_lineItem) auto
next
  fix prev x nxt seg assume "covers x seg"
  then show "covers (reclassify prev x nxt) seg" by (rule covers_reclassify)
qed

subsection \<open>Numeric prefixes\<close>

lemma sectionLevel_heading: "sectionLevel t = Some lv \<Longrightarrow> isHeading lv"
  by (auto simp: sectionLevel_def isHeading_def split: if_splits)

lemma lineItem_type:
  assumes "lineItem rt ls i c ab b = (item, c')"
  shows "type item \<noteq> code_block"
  by (rule lineItem_cases[of ls i rt c ab b])
     (use assms in \<open>auto simp: textItem_def numberedItem_def isHeading_def
        dest: getHeadingLevel_heading\<close>)

lemma headed_lineItem:
  assumes "lineItem rt ls i c ab b = (item, c')"
  shows "headed item [ls ! i]"
proof (cases "sectionLevel (trim (ls ! i))")
  case None
  then show ?thesis using lineItem_type[OF assms] by (simp add: headed_def)
next
  case (Some lv)
  then have "getHeadingLevel (ls ! i) = Some lv" by (rule sectionLevel_getHeadingLevel)
  then have "item = textItem lv (ls ! i) 95" using assms lineItem_level by (metis fst_conv)
  then show ?thesis using Some lineItem_type[OF assms] by (simp add: headed_def)
qed

lemma headed_reclassify:
  assumes "headed x seg"
  shows "headed (reclassify prev x nxt) seg"
proof (cases "reclassify prev x nxt = x")
  case True
  then show ?thesis using assms by simp
next
  case False
  then have x: "type x = paragraph_item" "reclassify prev x nxt = x\<lparr> type := bullet \<rparr>"
    using reclassify_cases[of prev x nxt] by auto
  then obtain l where seg: "seg = [l]"
    using assms by (auto simp: headed_def split: list.splits)
  have "sectionLevel (trim l) = None"
  proof (rule ccontr)
    assume "sectionLevel (trim l) \<noteq> None"
    then obtain lv where lv: "sectionLevel (trim l) = Some lv" by auto
    then have "x = textItem lv l 95" using assms seg x(1) by (simp add: headed_def)
    then have "type x = lv" by (simp add: textItem_def)
    then show False using x(1) sectionLevel_heading[OF lv] by (simp add: isHeading_def)
  qed
  then show ?thesis using x seg by (simp add: headed_def)
qed

text \<open>
  C4, as amended. The code block rule comes first, and it can take a line with a numeric
  prefix into a code block, whether the block opens at that line or at a line before
  it. For every line that does not end up in a code block: when its trimmed text
  starts with three numbers and a capital (\<open>N.N.N Capital\<close>) the result holds, at the
  line's place, a heading of level 3; with two numbers a heading of level 2; with one
  number a heading of level 1. The heading has the whole line as its text and the
  confidence 95. In the round that pushes it, neither the header score nor a later rule
  is consulted, the cursor moves by one line and the numbered counter is reset.
\<close>

theorem numeric_heading_override:
  "(\<exists>segs. concat segs = nonEmptyLines raw \<and> list_all2 headed (extractContent rt raw) segs)
   \<and> (\<forall>st lv. idx st < length ls \<and> codeBlockAt ls (idx st) = None
          \<and> sectionLevel (trim (ls ! idx st)) = Some lv \<longrightarrow>
        content (step rt ls st) = content st @ [textItem lv (ls ! idx st) 95]
        \<and> idx (step rt ls st) = idx st + 1
        \<and> numberedListCounter (step rt ls st) = 0)"
proof (intro conjI allI impI)
  show "\<exists>segs. concat segs = nonEmptyLines raw \<and> list_all2 headed (extractContent rt raw) segs"
  proof (rule segmented_result)
    fix codeLines :: "jsstring list" and codeProb :: int
    assume "codeLines \<noteq> []"
    then show "headed (codeItem codeLines codeProb) codeLines"
      by (simp add: headed_def codeItem_def)
  next
    fix i c ab b item c'
    assume "lineItem rt (nonEmptyLines raw) i c ab b = (item, c')"
    then show "headed item [nonEmptyLines raw ! i]" by (rule headed_lineItem)
  next
    fix prev x nxt seg assume "headed x seg"
    then show "headed (reclassify prev x nxt) seg" by (rule headed_reclassify)
  qed
next
  fix st :: scan and lv
  assume a: "idx st < length ls \<and> codeBlockAt ls (idx st) = None
          \<and> sectionLevel (trim (ls ! idx st)) = Some lv"
  then have "idx st < length ls" by simp
  then have "content (step rt ls st) = content st @ [textItem lv (ls ! idx st) 95]
        \<and> idx (step rt ls st) = idx st + 1
        \<and> numberedListCounter (step rt ls st) = 0"
  proof (cases rule: step_cases[of st ls rt])
    case (code codeLines j codeProb)
    then show ?thesis using a by simp
  next
    case (line b item counter)
    have "getHeadingLevel (ls ! idx st) = Some lv"
      using a sectionLevel_getHeadingLevel by blast
    then have "(item, counter) = (textItem lv (ls ! idx st) 95, 0)"
      using line(2) lineItem_level by metis
    then show ?thesis using line by simp
  qed
  then show "content (step rt ls st) = content st @ [textItem lv (ls ! idx st) 95]"
    and "idx (step rt ls st) = idx st + 1"
    and "numberedListCounter (step rt ls st) = 0"
    by simp_all
qed

section \<open>Evaluation on concrete inputs\<close>

text \<open>
  The rule sets below evaluate the model on a concrete input inside the logic. They are
  used with the weak congruence rules \<open>lazy\<close>: of a conditional, a \<open>let\<close> or a case
  distinction only the condition is simplified first, and then the branch that is taken.
\<close>

lemma inClass_eval:
  "inClass P False c = P c"
  "inClass P True c = (P c \<or> P (upperAscii c) \<or> P (lowerAscii c))"
  by (simp_all add: inClass_def)

lemma many_eval:
  "many P ci p [] acc = (p, []) # acc"
  "many P ci p (c # cs) acc = manyStep (inClass P ci c) P ci p c cs acc"
  by (cases "inClass P ci c"; simp)+

lemma wordAt_eval:
  "wordAt None = False"
  "wordAt (Some c) = isWordChar c"
  by (simp_all add: wordAt_def)

lemma headOpt_eval:
  "headOpt [] = None"
  "headOpt (c # cs) = Some c"
  by (simp_all add: headOpt_def)

lemma ends_eval:
  "ends (Cls P) ci (p, []) = []"
  "ends (Cls P) ci (p, c # cs) = pick (inClass P ci c) [(Some c, cs)]"
  "ends Bol ci (None, s) = [(None, s)]"
  "ends Bol ci (Some c, s) = []"
  "ends Eol ci (p, []) = [(p, [])]"
  "ends Eol ci (p, c # cs) = []"
  "ends WordB ci (p, s) = pick (wordAt p \<noteq> wordAt (headOpt s)) [(p, s)]"
  "ends Eps ci x = [x]"
  "ends (Seq a b) ci x = concat (map (ends b ci) (ends a ci x))"
  "ends (Alt a b) ci x = ends a ci x @ ends b ci x"
  "ends (Star P) ci (p, s) = many P ci p s []"
  "ends (Opt a) ci x = ends a ci x @ [x]"
  by simp_all

lemma search_eval:
  "search r ci p [] = nonEmpty (ends r ci (p, []))"
  "search r ci p (c # cs) = (nonEmpty (ends r ci (p, c # cs)) \<or> search r ci (Some c) cs)"
  by (cases "ends r ci (p, [])"; cases "ends r ci (p, c # cs)"; simp)+

lemma test_eval: "test (r, ci) s = search r ci None s"
  by (simp add: test_def)

lemma pattern_eval:
  "Word [] = Eps"
  "Word (c # cs) = Seq (Lit c) (Word cs)"
  "Seqs [] = Eps"
  "Seqs (r # rs) = Seq r (Seqs rs)"
  "Alts [r] = r"
  "Alts (r # r' # rs) = Alt r (Alts (r' # rs))"
  "Words ws = Alts (map Word ws)"
  "Plus P = Seq (Cls P) (Star P)"
  "Chars ns = Cls (oneOf ns)"
  by (simp_all add: Word_def Seqs_def Alts_def Words_def Plus_def Chars_def)

lemma Lit_eval: "Lit c = Cls ((=) (of_char c))"
  by (simp add: Lit_def fun_eq_iff eq_commute)

lemma startsWith_eval:
  "startsWith s [] = True"
  "startsWith [] (p # ps) = False"
  "startsWith (c # cs) (p # ps) = (c = p \<and> startsWith cs ps)"
  by simp_all

lemma includes_eval:
  "includes_str [] p = (p = [])"
  "includes_str (c # cs) p = (startsWith (c # cs) p \<or> includes_str cs p)"
  by simp_all

lemma ascii:
  "of_char (CHR '' '') = (32::nat)"
  "of_char (CHR ''!'') = (33::nat)"
  "of_char (CHR 0x22) = (34::nat)"
  "of_char (CHR ''#'') = (35::nat)"
  "of_char (CHR ''$'') = (36::nat)"
  "of_char (CHR ''%'') = (37::nat)"
  "of_char (CHR ''&'') = (38::nat)"
  "of_char (CHR 0x27) = (39::nat)"
  "of_char (CHR ''('') = (40::nat)"
  "of_char (CHR '')'') = (41::nat)"
  "of_char (CHR ''*'') = (42::nat)"
  "of_char (CHR ''+'') = (43::nat)"
  "of_char (CHR '','') = (44::nat)"
  "of_char (CHR ''-'') = (45::nat)"
  "of_char (CHR ''.'') = (46::nat)"
  "of_char (CHR ''/'') = (47::nat)"
  "of_char (CHR ''0'') = (48::nat)"
  "of_char (CHR ''1'') = (49::nat)"
  "of_char (CHR ''2'') = (50::nat)"
  "of_char (CHR ''3'') = (51::nat)"
  "of_char (CHR ''4'') = (52::nat)"
  "of_char (CHR ''5'') = (53::nat)"
  "of_char (CHR ''6'') = (54::nat)"
  "of_char (CHR ''7'') = (55::nat)"
  "of_char (CHR ''8'') = (56::nat)"
  "of_char (CHR ''9'') = (57::nat)"
  "of_char (CHR '':'') = (58::nat)"
  "of_char (CHR '';'') = (59::nat)"
  "of_char (CHR ''<'') = (60::nat)"
  "of_char (CHR ''='') = (61::nat)"
  "of_char (CHR ''>'') = (62::nat)"
  "of_char (CHR ''?'') = (63::nat)"
  "of_char (CHR ''@'') = (64::nat)"
  "of_char (CHR ''A'') = (65::nat)"
  "of_char (CHR ''B'') = (66::nat)"
  "of_char (CHR ''C'') = (67::nat)"
  "of_char (CHR ''D'') = (68::nat)"
  "of_char (CHR ''E'') = (69::nat)"
  "of_char (CHR ''F'') = (70::nat)"
  "of_char (CHR ''G'') = (71::nat)"
  "of_char (CHR ''H'') = (72::nat)"
  "of_char (CHR ''I'') = (73::nat)"
  "of_char (CHR ''J'') = (74::nat)"
  "of_char (CHR ''K'') = (75::nat)"
  "of_char (CHR ''L'') = (76::nat)"
  "of_char (CHR ''M'') = (77::nat)"
  "of_char (CHR ''N'') = (78::nat)"
  "of_char (CHR ''O'') = (79::nat)"
  "of_char (CHR ''P'') = (80::nat)"
  "of_char (CHR ''Q'') = (81::nat)"
  "of_char (CHR ''R'') = (82::nat)"
  "of_char (CHR ''S'') = (83::nat)"
  "of_char (CHR ''T'') = (84::nat)"
  "of_char (CHR ''U'') = (85::nat)"
  "of_char (CHR ''V'') = (86::nat)"
  "of_char (CHR ''W'') = (87::nat)"
  "of_char (CHR ''X'') = (88::nat)"
  "of_char (CHR ''Y'') = (89::nat)"
  "of_char (CHR ''Z'') = (90::nat)"
  "of_char (CHR ''['') = (91::nat)"
  "of_char (CHR 0x5C) = (92::nat)"
  "of_char (CHR '']'') = (93::nat)"
  "of_char (CHR ''^'') = (94::nat)"
  "of_char (CHR ''_'') = (95::nat)"
  "of_char (CHR 0x60) = (96::nat)"
  "of_char (CHR ''a'') = (97::nat)"
  "of_char (CHR ''b'') = (98::nat)"
  "of_char (CHR ''c'') = (99::nat)"
  "of_char (CHR ''d'') = (100::nat)"
  "of_char (CHR ''e'') = (101::nat)"
  "of_char (CHR ''f'') = (102::nat)"
  "of_char (CHR ''g'') = (103::nat)"
  "of_char (CHR ''h'') = (104::nat)"
  "of_char (CHR ''i'') = (105::nat)"
  "of_char (CHR ''j'') = (106::nat)"
  "of_char (CHR ''k'') = (107::nat)"
  "of_char (CHR ''l'') = (108::nat)"
  "of_char (CHR ''m'') = (109::nat)"
  "of_char (CHR ''n'') = (110::nat)"
  "of_char (CHR ''o'') = (111::nat)"
  "of_char (CHR ''p'') = (112::nat)"
  "of_char (CHR ''q'') = (113::nat)"
  "of_char (CHR ''r'') = (114::nat)"
  "of_char (CHR ''s'') = (115::nat)"
  "of_char (CHR ''t'') = (116::nat)"
  "of_char (CHR ''u'') = (117::nat)"
  "of_char (CHR ''v'') = (118::nat)"
  "of_char (CHR ''w'') = (119::nat)"
  "of_char (CHR ''x'') = (120::nat)"
  "of_char (CHR ''y'') = (121::nat)"
  "of_char (CHR ''z'') = (122::nat)"
  "of_char (CHR ''{'') = (123::nat)"
  "of_char (CHR ''|'') = (124::nat)"
  "of_char (CHR ''}'') = (125::nat)"
  "of_char (CHR ''~'') = (126::nat)"
  by simp_all

lemmas chars_eval = str_def isDigit_def isUpperAZ_def isLowerAZ_def isWordChar_def
  isLineTerminator_def isSpace_def upperAscii_def lowerAscii_def notLineTerminator_def oneOf_def
  isColonOrSpace_def wordOrSpace_def ascii

lemmas tables_eval = HEADER_KEYWORDS_def introVerb_def LIST_INTRO_PATTERNS_def CODE_PATTERNS_def
  BULLET_CONTENT_PATTERNS_def re_section3_def re_section2_def re_section1_def
  re_level3_def re_level2_def re_level1_def re_letter_def re_roman_def re_capital_def re_label_def
  re_codeChars_def re_methodCall_def re_stringAssign_def re_numberAssign_def re_salesforce_def
  re_fragment_def re_bulletMarker_def re_bodyStart_def subTopicKeywords_def

lemmas matcher_eval = inClass_eval many_eval wordAt_eval headOpt_eval ends_eval search_eval
  test_eval pattern_eval Lit_eval pick.simps nonEmpty.simps manyStep.simps rx.simps
  startsWith_eval includes_eval

lemmas logic_eval = simp_thms if_True if_False list.map concat.simps append.simps rel_simps
  arith_simps list_ex_Nil_iff list_ex_Cons_iff option.simps list.simps prod.case fst_conv snd_conv
  diff_nat_numeral nat_numeral insert_iff empty_iff

lemmas regex_eval = chars_eval tables_eval matcher_eval logic_eval

lemma keywordLoop_eval:
  "keywordLoop rt trimmed [] score = Inr score"
  "keywordLoop rt trimmed (keyword # rest) score =
     kwNext (trimmed = keyword) (startsWith trimmed (keyword @ str '':''))
       (keywordLoop rt trimmed rest
          (score + bonus (startsWith trimmed (keyword @ str '' '')) 20
                 + bonus (includes_str (toLowerCase rt trimmed) (toLowerCase rt keyword)) 10))"
  by (cases "trimmed = keyword"; cases "startsWith trimmed (keyword @ str '':'')";
      cases "startsWith trimmed (keyword @ str '' '')";
      cases "includes_str (toLowerCase rt trimmed) (toLowerCase rt keyword)"; simp)+

lemma nat_eval:
  "(1::nat) - numeral (num.Bit0 k) = 0"
  "(1::nat) - numeral (num.Bit1 k) = 0"
  "nat (- 1) = 0"
  "nat (- numeral k) = 0"
  by simp_all

lemmas strings_eval = nat_eval trim_def endsWith_def parseInt_def dropWhile.simps
  takeWhile.simps rev.simps foldl.simps foldr.simps filter.simps splitWs.simps keywordLoop_eval
  kwNext.simps bonus.simps between_def take_Cons' drop_Cons' nth_Cons' take.simps(1)
  drop.simps(1) list.size(3,4) diff_0_eq_0 Suc_eq_plus1 min_def max_def one_add_one
  numeral_plus_one one_plus_numeral add_0 add_0_right
  diff_zero mult_zero_right mult_zero_left pred_numeral_def[symmetric] pred_numeral_simps BitM.simps
  diff_self_eq_0 mult_1 mult.right_neutral minus_minus diff_minus_eq_add nat_0 nat_1
  runtime.select_convs asciiCase_def

lemmas analyzers_eval = titleCase_def isBlank_def headerTail_def analyzeHeaderProbability_def
  codeLike_def analyzeCodeProbability_def analyzeBulletProbability_def getHeadingLevel_def
  isListIntro_def numberedMatch_def markerMatch_def bulletMatch_def subBulletMatch_def
  numberedAt_def scoredLevel_def Let_def sum.case of_nat_numeral of_nat_0 of_nat_1

lemmas scan_eval = nonEmptyLines_def contextAt_def continuesCode_def sectionLevel_def
  collectCode.simps codeBlockAt_def prevLine_def
  nextLine_def lineItem_def emit_def afterBullet_def step_def extract_loop.simps initial_def
  introText_def shortParagraph_def reclassify_def postLoop.simps postProcessContent_def
  extractContent_def scanned_def textItem_def numberedItem_def codeItem_def
  scan.select_convs scan.update_convs ContentItem.select_convs ContentItem.update_convs
  last.simps option.map ItemType.simps

lemmas all_eval = regex_eval strings_eval analyzers_eval scan_eval

lemmas lazy = if_weak_cong let_weak_cong option.case_cong_weak prod.case_cong_weak sum.case_cong_weak
  list.case_cong_weak

section \<open>Examples\<close>

text \<open>
  The examples run \<open>extractContent\<close> with \<open>asciiCase\<close>: their lines are ASCII, or hold a
  glyph that has no case, so the runtime's case mapping is the ASCII one on them.
\<close>

subsection \<open>A line with a hyphen\<close>

lemma hyphen_example:
  "extractContent asciiCase [str ''- item''] = [textItem bullet (str ''item'') 95]"
  by (simp only: all_eval cong: lazy)

lemma hyphen_line:
  "nonEmptyLines [str ''- item''] = [str ''- item'']"
  "codeBlockAt [str ''- item''] 0 = None"
  "getHeadingLevel (str ''- item'') = None"
  "analyzeHeaderProbability asciiCase (str ''- item'') None None = 45"
  by (simp_all only: all_eval cong: lazy)

lemma hyphen_body:
  "str ''- item'' = 45 # str '' item''"
  "str '' item'' \<noteq> []"
  "takeWhile notLineTerminator (dropWhile isSpace (str '' item'')) = str ''item''"
  by (simp_all only: all_eval cong: lazy)

text \<open>
  A line terminator inside a line: \<open>.+\<close> stops before U+2028, and the bullet of the line
  \<open>- a\<close> U+2028 \<open>b\<close> holds \<open>a\<close> only.
\<close>

lemma terminator_example:
  "extractContent asciiCase [[45, 32, 97, 8232, 98]] = [textItem bullet [97] 95]"
  by (simp only: all_eval cong: lazy)



text \<open>
  C1 as stated fails: the bullet of the line \<open>- item\<close> holds \<open>item\<close>, so flattening the
  result does not give the line back.
\<close>

theorem coverage_counterexample:
  "nonEmptyLines [str ''- item''] = [str ''- item'']
   \<and> flatten (extractContent asciiCase [str ''- item'']) = [str ''item'']
   \<and> str ''item'' \<noteq> str ''- item''"
  by (simp only: hyphen_example hyphen_line(1) flatten_def all_eval cong: lazy)

text \<open>
  C9, at the line \<open>- item\<close> from the initial state: the step moves the cursor forward, stays
  within the lines and adds one item.
\<close>

theorem scan_total_witness:
  "idx initial < length [str ''- item'']
   \<and> idx initial < idx (step asciiCase [str ''- item''] initial)
   \<and> idx (step asciiCase [str ''- item''] initial) \<le> length [str ''- item'']
   \<and> length (content (step asciiCase [str ''- item''] initial)) = length (content initial) + 1"
proof -
  have first: "idx initial < length [str ''- item'']"
    by (simp add: initial_def)
  have "\<forall>st. idx st < length [str ''- item''] \<longrightarrow>
       idx st < idx (step asciiCase [str ''- item''] st)
       \<and> idx (step asciiCase [str ''- item''] st) \<le> length [str ''- item'']
       \<and> length (content (step asciiCase [str ''- item''] st)) = length (content st) + 1"
    using scan_total [of "[str ''- item'']" asciiCase "[]"] by (rule conjunct1)
  with first show ?thesis
    by blast
qed


subsection \<open>Numbered lines around a bullet\<close>

lemma numbered_example:
  "extractContent asciiCase [str ''1) a'', str ''- b'', str ''2) c'', str ''1) d'']
   = [numberedItem (str ''a'') 1, textItem bullet (str ''b'') 95,
      numberedItem (str ''c'') 2, numberedItem (str ''d'') 1]"
  by (simp only: all_eval cong: lazy)

text \<open>
  C2 as stated fails: in \<open>1) a\<close>, \<open>- b\<close>, \<open>2) c\<close>, \<open>1) d\<close> the bullet ends the first run of
  numbered items, and the numbered item after it has the number 2.
\<close>

theorem numbering_counterexample:
  "\<not> runsCountFromOne 0
       (extractContent asciiCase [str ''1) a'', str ''- b'', str ''2) c'', str ''1) d''])"
  by (simp add: numbered_example numberedItem_def textItem_def)

text \<open>
  A paragraph between two numbered lines: the paragraph \<open>b\<close> resets the counter, so
  \<open>2) c\<close> is not a numbered item; the pass then turns \<open>b\<close> into a bullet.
\<close>

lemma reset_example:
  "scanned asciiCase [str ''1) item:'', str ''b'', str ''2) c'']
   = [numberedItem (str ''item:'') 1, textItem paragraph_item (str ''b'') 5,
      textItem paragraph_item (str ''2) c'') 15]"
  "extractContent asciiCase [str ''1) item:'', str ''b'', str ''2) c'']
   = [numberedItem (str ''item:'') 1, textItem bullet (str ''b'') 5,
      textItem paragraph_item (str ''2) c'') 15]"
  by (simp_all only: all_eval cong: lazy)

text \<open>
  C2, at the line \<open>1) a\<close> from the initial state, and at the lines \<open>1) item:\<close>, \<open>b\<close>,
  \<open>2) c\<close>: the scan pushes \<open>b\<close> as a paragraph, which resets the counter, and the pass
  turns it into a bullet.
\<close>

theorem numbering_of_scan_witness:
  "idx initial < length [str ''1) a'']
   \<and> (\<exists>x. content (step asciiCase [str ''1) a''] initial) = content initial @ [x]
         \<and> numberedListCounter (step asciiCase [str ''1) a''] initial)
             = counterAfter (numberedListCounter initial) x
         \<and> (if type x = numbered
             then number x = Some 1 \<or> number x = Some (numberedListCounter initial + 1)
             else True))
   \<and> (1::nat) < length (scanned asciiCase [str ''1) item:'', str ''b'', str ''2) c''])
   \<and> type (scanned asciiCase [str ''1) item:'', str ''b'', str ''2) c''] ! 1) = paragraph_item
   \<and> extractContent asciiCase [str ''1) item:'', str ''b'', str ''2) c''] ! 1
       = (scanned asciiCase [str ''1) item:'', str ''b'', str ''2) c''] ! 1)\<lparr> type := bullet \<rparr>"
proof -
  let ?raw = "[str ''1) item:'', str ''b'', str ''2) c'']"
  note inst = numbering_of_scan [of "[str ''1) a'']" asciiCase ?raw]
  have first: "idx initial < length [str ''1) a'']"
    by (simp add: initial_def)
  have k: "(1::nat) < length (scanned asciiCase ?raw)"
    by (simp add: reset_example)
  have changed: "extractContent asciiCase ?raw ! 1 \<noteq> scanned asciiCase ?raw ! 1"
    by (simp add: reset_example textItem_def)
  have "\<exists>x. content (step asciiCase [str ''1) a''] initial) = content initial @ [x]
         \<and> numberedListCounter (step asciiCase [str ''1) a''] initial)
             = counterAfter (numberedListCounter initial) x
         \<and> (if type x = numbered
             then number x = Some 1 \<or> number x = Some (numberedListCounter initial + 1)
             else True)"
    using inst first by blast
  moreover have "extractContent asciiCase ?raw ! 1 = scanned asciiCase ?raw ! 1
         \<or> (type (scanned asciiCase ?raw ! 1) = paragraph_item
            \<and> extractContent asciiCase ?raw ! 1
                = (scanned asciiCase ?raw ! 1)\<lparr> type := bullet \<rparr>)"
    using inst k by blast
  ultimately show ?thesis
    using first k changed by blast
qed

subsection \<open>Example 1 of the specification\<close>

lemma example1:
  "extractContent asciiCase
     [str ''1. Setup'', str ''Install the tool'', str ''2. Configure'', str ''Edit the config file'']
   = [textItem heading1 (str ''1. Setup'') 95, textItem paragraph_item (str ''Install the tool'') 45,
      textItem heading1 (str ''2. Configure'') 95,
      textItem paragraph_item (str ''Edit the config file'') 45]"
  by (simp only: all_eval cong: lazy)

text \<open>
  C3, as the code has it: Example 1 gives two level-1 headings, each followed by a paragraph,
  and the text of a heading is its whole line.
\<close>

theorem example1_items:
  "extractContent asciiCase
     [str ''1. Setup'', str ''Install the tool'', str ''2. Configure'', str ''Edit the config file'']
   = [textItem heading1 (str ''1. Setup'') 95, textItem paragraph_item (str ''Install the tool'') 45,
      textItem heading1 (str ''2. Configure'') 95,
      textItem paragraph_item (str ''Edit the config file'') 45]"
  by (simp only: all_eval cong: lazy)

text \<open>
  C3 as stated fails: the two headings of Example 1 keep their numeric prefixes.
\<close>

theorem example1_counterexample:
  "map (\<lambda>x. (type x, item_text x))
     (extractContent asciiCase
        [str ''1. Setup'', str ''Install the tool'', str ''2. Configure'',
         str ''Edit the config file''])
   \<noteq> [(heading1, Some (str ''Setup'')), (paragraph_item, Some (str ''Install the tool'')),
       (heading1, Some (str ''Configure'')), (paragraph_item, Some (str ''Edit the config file''))]"
  unfolding example1 by (simp add: textItem_def str_def)

subsection \<open>Numeric prefixes\<close>

lemma section_code_example:
  "test re_section3 (trim (str ''1.2.3 System.debug(Exception);''))"
  "extractContent asciiCase [str ''1.2.3 System.debug(Exception);'']
   = [codeItem [str ''1.2.3 System.debug(Exception);''] 90]"
  by (simp_all only: all_eval cong: lazy)

lemma section_lines:
  "codeBlockAt [str ''1.2.3 Alpha''] 0 = None"
  "sectionLevel (trim (str ''1.2.3 Alpha'')) = Some heading3"
  "codeBlockAt [str ''1.2 Beta''] 0 = None"
  "sectionLevel (trim (str ''1.2 Beta'')) = Some heading2"
  "codeBlockAt [str ''1. Gamma''] 0 = None"
  "sectionLevel (trim (str ''1. Gamma'')) = Some heading1"
  by (simp_all only: all_eval cong: lazy)

text \<open>
  C4 as stated fails: the line \<open>1.2.3 System.debug(Exception);\<close> matches the pattern of a
  level-3 section, and the scan emits it as a code block.
\<close>

theorem numeric_heading_counterexample:
  "test re_section3 (trim (str ''1.2.3 System.debug(Exception);''))
   \<and> extractContent asciiCase [str ''1.2.3 System.debug(Exception);'']
       = [codeItem [str ''1.2.3 System.debug(Exception);''] 90]"
  by (simp only: section_code_example simp_thms)

text \<open>
  A line with a numeric prefix inside a code block: the block opens at \<open>if (x) {\<close>, and
  its inner loop takes the short line \<open>1.2.3 Alpha\<close> because the line behind it is code.
\<close>

lemma bridged_example:
  "extractContent asciiCase [str ''if (x) {'', str ''1.2.3 Alpha'', str ''} else {'']
   = [codeItem [str ''if (x) {'', str ''1.2.3 Alpha'', str ''} else {''] 65]"
  "codeBlockAt [str ''if (x) {'', str ''1.2.3 Alpha'', str ''} else {''] 1 = None"
  "nonEmptyLines [str ''if (x) {'', str ''1.2.3 Alpha'', str ''} else {'']
   = [str ''if (x) {'', str ''1.2.3 Alpha'', str ''} else {'']"
  by (simp_all only: all_eval cong: lazy)

text \<open>
  C4, at the lines \<open>1.2.3 Alpha\<close>, \<open>1.2 Beta\<close> and \<open>1. Gamma\<close>, none of which starts a code
  block, and at the line \<open>1.2.3 Alpha\<close> between two lines of code: the code block rule
  does not commit at that line, but the block that opens at the line before it takes
  it, and the result is one code block.
\<close>

theorem numeric_heading_override_witness:
  "idx initial < length [str ''1.2.3 Alpha'']
   \<and> codeBlockAt [str ''1.2.3 Alpha''] (idx initial) = None
   \<and> sectionLevel (trim ([str ''1.2.3 Alpha''] ! idx initial)) = Some heading3
   \<and> content (step asciiCase [str ''1.2.3 Alpha''] initial)
       = [textItem heading3 (str ''1.2.3 Alpha'') 95]
   \<and> content (step asciiCase [str ''1.2 Beta''] initial)
       = [textItem heading2 (str ''1.2 Beta'') 95]
   \<and> content (step asciiCase [str ''1. Gamma''] initial)
       = [textItem heading1 (str ''1. Gamma'') 95]
   \<and> codeBlockAt [str ''if (x) {'', str ''1.2.3 Alpha'', str ''} else {''] 1 = None
   \<and> extractContent asciiCase [str ''if (x) {'', str ''1.2.3 Alpha'', str ''} else {'']
       = [codeItem [str ''if (x) {'', str ''1.2.3 Alpha'', str ''} else {''] 65]
   \<and> list_all2 headed
         (extractContent asciiCase [str ''if (x) {'', str ''1.2.3 Alpha'', str ''} else {''])
         [[str ''if (x) {'', str ''1.2.3 Alpha'', str ''} else {'']]"
proof -
  let ?code = "[str ''if (x) {'', str ''1.2.3 Alpha'', str ''} else {'']"
  have start: "idx initial = 0" "content initial = []"
    by (simp_all add: initial_def)
  have round: "content (step asciiCase ls initial)
                 = content initial @ [textItem lv (ls ! idx initial) 95]"
    if "idx initial < length ls" and "codeBlockAt ls (idx initial) = None"
      and "sectionLevel (trim (ls ! idx initial)) = Some lv" for ls lv
    using numeric_heading_override [of "[]" asciiCase ls] that by blast
  have "content (step asciiCase [str ''1.2.3 Alpha''] initial)
          = content initial @ [textItem heading3 ([str ''1.2.3 Alpha''] ! idx initial) 95]"
    by (rule round) (simp_all add: start section_lines)
  moreover have "content (step asciiCase [str ''1.2 Beta''] initial)
          = content initial @ [textItem heading2 ([str ''1.2 Beta''] ! idx initial) 95]"
    by (rule round) (simp_all add: start section_lines)
  moreover have "content (step asciiCase [str ''1. Gamma''] initial)
          = content initial @ [textItem heading1 ([str ''1. Gamma''] ! idx initial) 95]"
    by (rule round) (simp_all add: start section_lines)
  moreover obtain segs where segs: "concat segs = nonEmptyLines ?code"
      "list_all2 headed (extractContent asciiCase ?code) segs"
    using numeric_heading_override [of ?code asciiCase "[]"] by blast
  have "list_all2 headed (extractContent asciiCase ?code) [?code]"
  proof -
    obtain seg where "segs = [seg]"
      using segs(2) by (auto simp: bridged_example(1) list_all2_Cons1)
    then show ?thesis using segs by (simp add: bridged_example(3))
  qed
  ultimately have "content (step asciiCase [str ''1.2.3 Alpha''] initial)
        = [textItem heading3 (str ''1.2.3 Alpha'') 95]
      \<and> content (step asciiCase [str ''1.2 Beta''] initial)
        = [textItem heading2 (str ''1.2 Beta'') 95]
      \<and> content (step asciiCase [str ''1. Gamma''] initial)
        = [textItem heading1 (str ''1. Gamma'') 95]
      \<and> list_all2 headed (extractContent asciiCase ?code) [?code]"
    by (simp add: start)
  moreover have "idx initial < length [str ''1.2.3 Alpha'']
      \<and> codeBlockAt [str ''1.2.3 Alpha''] (idx initial) = None
      \<and> sectionLevel (trim ([str ''1.2.3 Alpha''] ! idx initial)) = Some heading3"
    by (simp add: start section_lines)
  ultimately show ?thesis
    using bridged_example(1,2) by blast
qed

subsection \<open>A code block\<close>

lemma code_example:
  "extractContent asciiCase [str ''if (x) {'', str ''}'']
   = [codeItem [str ''if (x) {'', str ''}''] 65]"
  "nonEmptyLines [str ''if (x) {'', str ''}''] = [str ''if (x) {'', str ''}'']"
  by (simp_all only: all_eval cong: lazy)

text \<open>
  C5, at the lines \<open>if (x) {\<close> and \<open>}\<close>, which the scan emits as one code block, and at the
  line \<open>- item\<close>, where no code block starts.
\<close>

theorem code_block_minimality_witness:
  "codeItem [str ''if (x) {'', str ''}''] 65
     \<in> set (extractContent asciiCase [str ''if (x) {'', str ''}''])
   \<and> type (codeItem [str ''if (x) {'', str ''}''] 65) = code_block
   \<and> committed [str ''if (x) {'', str ''}''] (codeItem [str ''if (x) {'', str ''}''] 65)
   \<and> idx initial < length [str ''- item'']
   \<and> codeBlockAt [str ''- item''] (idx initial) = None
   \<and> (\<exists>b. content (step asciiCase [str ''- item''] initial)
          = content initial @ [fst (lineItem asciiCase [str ''- item''] (idx initial)
                                      (numberedListCounter initial)
                                      (afterBullet (content initial)) b)])"
proof -
  let ?code = "[str ''if (x) {'', str ''}'']"
  let ?line = "[str ''- item'']"
  have start: "idx initial = 0"
    by (simp add: initial_def)
  have member: "codeItem ?code 65 \<in> set (extractContent asciiCase ?code)"
    by (simp add: code_example)
  have kind: "type (codeItem ?code 65) = code_block"
    by (simp add: codeItem_def)
  have none: "idx initial < length ?line \<and> codeBlockAt ?line (idx initial) = None"
    by (simp add: start hyphen_line)
  note whole = code_block_minimality [of asciiCase ?code]
  note part = code_block_minimality [of asciiCase ?line]
  have "committed (nonEmptyLines ?code) (codeItem ?code 65)"
    using whole member kind by blast
  then have "committed ?code (codeItem ?code 65)"
    by (simp only: code_example)
  moreover have "\<exists>b. content (step asciiCase ?line initial)
          = content initial @ [fst (lineItem asciiCase ?line (idx initial)
                                      (numberedListCounter initial)
                                      (afterBullet (content initial)) b)]"
    using part none by blast
  ultimately show ?thesis
    using member kind none by blast
qed

subsection \<open>A sub-bullet\<close>

lemma sub_bullet_example:
  "extractContent asciiCase [str ''- a'', [9702, 32, 98]]
   = [textItem bullet (str ''a'') 95, textItem sub_bullet (str ''b'') 90]"
  by (simp only: all_eval cong: lazy)

text \<open>
  C8, at the line \<open>- a\<close> followed by a line with the glyph U+25E6: the sub-bullet comes
  right after the bullet.
\<close>

theorem sub_bullet_follows_bullet_witness:
  "(1::nat) < length (extractContent asciiCase [str ''- a'', [9702, 32, 98]])
   \<and> type (extractContent asciiCase [str ''- a'', [9702, 32, 98]] ! 1) = sub_bullet
   \<and> type (extractContent asciiCase [str ''- a'', [9702, 32, 98]] ! (1 - 1)) = bullet"
proof -
  have "(1::nat) < length (extractContent asciiCase [str ''- a'', [9702, 32, 98]])"
    and "type (extractContent asciiCase [str ''- a'', [9702, 32, 98]] ! 1) = sub_bullet"
    by (simp_all add: sub_bullet_example textItem_def)
  then show ?thesis
    using sub_bullet_follows_bullet [of 1 asciiCase "[str ''- a'', [9702, 32, 98]]"] by blast
qed

subsection \<open>Scores below zero\<close>

lemma negative_scores:
  "analyzeHeaderProbability asciiCase
     (str ''aaaaaaaaaaaaaaaaaaaaaaaaaaaaaaaaaaaaaaaaaaaaaaaaaaaaaaaaaaaaaaaaaaaaaaaaaaaaaaaa.'')
     (Some (str ''x'')) None = - 15"
  "analyzeBulletProbability
     (str ''The aaaaaaaaaaaaaaaaaaaaaaaaaaaaaaaaaaaaaaaaaaaaaaaaaaaaaaaaaaaaaaaaaaaaaaaaaaaa.'')
     None False = - 10"
  by (simp_all only: all_eval cong: lazy)

text \<open>
  C6 as stated fails: a line of 81 characters that ends in a full stop and follows a
  non-blank line has the header score -15, and a line of 81 characters that starts with
  \<open>The\<close> has the bullet score -10.
\<close>

theorem analyzer_range_counterexample:
  "analyzeHeaderProbability asciiCase
     (str ''aaaaaaaaaaaaaaaaaaaaaaaaaaaaaaaaaaaaaaaaaaaaaaaaaaaaaaaaaaaaaaaaaaaaaaaaaaaaaaaa.'')
     (Some (str ''x'')) None < 0
   \<and> analyzeBulletProbability
     (str ''The aaaaaaaaaaaaaaaaaaaaaaaaaaaaaaaaaaaaaaaaaaaaaaaaaaaaaaaaaaaaaaaaaaaaaaaaaaaa.'')
     None False < 0"
  by (simp add: negative_scores)

subsection \<open>Post-processing\<close>

lemma long_paragraph:
  "introText (Some (textItem paragraph_item (str ''Items:'') 45))"
  "postProcessContent
     [textItem paragraph_item (str ''Items:'') 45,
      textItem paragraph_item (str ''aaaaaaaaaaaaaaaaaaaaaaaaaaaaaaaaaaaaaaaaaaaaaaaaaaaaaaaaaaaaaaaaaaaaaaaaaaaaaaaaaaaaaaaaaaaaaaaaaaa.'') 75]
   = [textItem paragraph_item (str ''Items:'') 45,
      textItem paragraph_item (str ''aaaaaaaaaaaaaaaaaaaaaaaaaaaaaaaaaaaaaaaaaaaaaaaaaaaaaaaaaaaaaaaaaaaaaaaaaaaaaaaaaaaaaaaaaaaaaaaaaaa.'') 75]"
  by (simp_all only: all_eval cong: lazy)

lemma long_paragraph_scan:
  "extractContent asciiCase
     [str ''Items:'',
      str ''aaaaaaaaaaaaaaaaaaaaaaaaaaaaaaaaaaaaaaaaaaaaaaaaaaaaaaaaaaaaaaaaaaaaaaaaaaaaaaaaaaaaaaaaaaaaaaaaaaa.'']
   = [textItem paragraph_item (str ''Items:'') 45,
      textItem paragraph_item (str ''aaaaaaaaaaaaaaaaaaaaaaaaaaaaaaaaaaaaaaaaaaaaaaaaaaaaaaaaaaaaaaaaaaaaaaaaaaaaaaaaaaaaaaaaaaaaaaaaaaa.'') 75]"
  by (simp only: all_eval cong: lazy)

lemma short_paragraph:
  "introText (Some (textItem paragraph_item (str ''a:'') 45))"
  "shortParagraph (textItem paragraph_item (str ''b'') 45)"
  by (simp_all only: all_eval cong: lazy)

text \<open>
  C7 as stated fails: the scan emits the line \<open>Items:\<close> and a line of 100 characters as
  two paragraphs, the first is a list introduction, and the second is a paragraph in the
  result.
\<close>

theorem post_processing_counterexample:
  "extractContent asciiCase
     [str ''Items:'',
      str ''aaaaaaaaaaaaaaaaaaaaaaaaaaaaaaaaaaaaaaaaaaaaaaaaaaaaaaaaaaaaaaaaaaaaaaaaaaaaaaaaaaaaaaaaaaaaaaaaaaa.'']
   = [textItem paragraph_item (str ''Items:'') 45,
      textItem paragraph_item (str ''aaaaaaaaaaaaaaaaaaaaaaaaaaaaaaaaaaaaaaaaaaaaaaaaaaaaaaaaaaaaaaaaaaaaaaaaaaaaaaaaaaaaaaaaaaaaaaaaaaa.'') 75]
   \<and> introText (Some (textItem paragraph_item (str ''Items:'') 45))
   \<and> length (str ''aaaaaaaaaaaaaaaaaaaaaaaaaaaaaaaaaaaaaaaaaaaaaaaaaaaaaaaaaaaaaaaaaaaaaaaaaaaaaaaaaaaaaaaaaaaaaaaaaaa.'') = 100"
  by (simp only: long_paragraph_scan long_paragraph(1) simp_thms) (simp add: str_def)

text \<open>
  C7, at a paragraph \<open>b\<close> after a paragraph \<open>a:\<close>: the pass makes it a bullet.
\<close>

theorem post_processing_pass_witness:
  "(2::nat) < length [textItem bullet (str ''x'') 95, textItem paragraph_item (str ''a:'') 45,
                      textItem paragraph_item (str ''b'') 45]
   \<and> postProcessContent [textItem bullet (str ''x'') 95, textItem paragraph_item (str ''a:'') 45,
                          textItem paragraph_item (str ''b'') 45] ! 2
       = textItem bullet (str ''b'') 45"
proof -
  let ?cs = "[textItem bullet (str ''x'') 95, textItem paragraph_item (str ''a:'') 45,
              textItem paragraph_item (str ''b'') 45]"
  have "\<forall>k < length ?cs.
        postProcessContent ?cs ! k
          = (if shortParagraph (?cs ! k)
                \<and> (introText (prevOf ?cs k)
                    \<or> (map_option type (prevOf (postProcessContent ?cs) k) = Some bullet
                        \<and> map_option type (nextOf ?cs k) = Some bullet))
             then (?cs ! k)\<lparr> type := bullet \<rparr>
             else ?cs ! k)"
    using post_processing_pass [of ?cs] by (rule conjunct2)
  then have "postProcessContent ?cs ! 2
          = (if shortParagraph (?cs ! 2)
                \<and> (introText (prevOf ?cs 2)
                    \<or> (map_option type (prevOf (postProcessContent ?cs) 2) = Some bullet
                        \<and> map_option type (nextOf ?cs 2) = Some bullet))
             then (?cs ! 2)\<lparr> type := bullet \<rparr>
             else ?cs ! 2)"
    by simp
  moreover have "shortParagraph (?cs ! 2)" "introText (prevOf ?cs 2)"
    by (simp_all add: short_paragraph prevOf_def)
  ultimately show ?thesis
    by (simp add: textItem_def)
qed

end
